theory Spec2Isabelle
  imports Complex_Main "HOL-Library.Sublist"
begin

section \<open>JavaScript values and the host engine\<close>

text \<open>
  The program is \<^verbatim>\<open>src/spreadsheet.js\<close>. Its core is the class \<^verbatim>\<open>Spreadsheet\<close>
  (lines 14 to 114); the remainder of the file is DOM glue and is not modelled.

  Strings are lists of code units. Isabelle characters are bytes, so the model covers
  strings whose code units are below 256.

  A JavaScript number is a double. A finite double is represented by the rational it
  denotes (the sign of zero is dropped: \<^verbatim>\<open>String(-0)\<close> is \<^verbatim>\<open>"0"\<close>, so the program
  cannot tell the two zeros apart when it substitutes a value); the three other numbers
  are constructors of their own.
\<close>

datatype jsnum = Fin rat | PosInf | NegInf | NaN

text \<open>
  The values a cell can hold: a number, a string, \<^verbatim>\<open>undefined\<close>, or some other object
  (which the program only ever turns into text, so it is represented by that text).
\<close>

datatype jsval = Num jsnum | Str string | Undefined | Obj string

text \<open>
  Three services of the JavaScript engine are used by the program and are not part of
  its source. They are parameters of the model:
  \<^item> \<open>toNumber\<close> is \<^verbatim>\<open>Number(text)\<close>, which is also the coercion inside \<^verbatim>\<open>isNaN(text)\<close>;
  \<^item> \<open>finToString\<close> is \<^verbatim>\<open>String(n)\<close> for a finite number \<open>n\<close>;
  \<^item> \<open>run\<close> is \<^verbatim>\<open>Function('return ' + expr)()\<close>: \<open>Inr v\<close> when the call returns \<open>v\<close>,
    \<open>Inl msg\<close> when it throws an error whose message is \<open>msg\<close>.
  The expression handed to \<open>run\<close> has passed the check of line 94, so it has no
  identifier in it: running it reads and writes no state, and \<open>run\<close> is a function of
  the text alone. Every general theorem below holds for every host.
\<close>

record host =
  toNumber :: "string \<Rightarrow> jsnum"
  finToString :: "rat \<Rightarrow> string"
  run :: "string \<Rightarrow> string + jsval"

definition numToString :: "host \<Rightarrow> jsnum \<Rightarrow> string" where
  "numToString h n =
     (case n of Fin q \<Rightarrow> finToString h q
      | PosInf \<Rightarrow> ''Infinity''
      | NegInf \<Rightarrow> ''-Infinity''
      | NaN \<Rightarrow> ''NaN'')"

text \<open>String concatenation \<^verbatim>\<open>'' + v\<close>.\<close>

definition toStr :: "host \<Rightarrow> jsval \<Rightarrow> string" where
  "toStr h v =
     (case v of Num n \<Rightarrow> numToString h n
      | Str t \<Rightarrow> t
      | Undefined \<Rightarrow> ''undefined''
      | Obj t \<Rightarrow> t)"

section \<open>Strings\<close>

text \<open>
  White space as \<^verbatim>\<open>String.prototype.trim\<close> and the class \<^verbatim>\<open>\s\<close> know it, among
  the code units below 256: tab, line feed, vertical tab, form feed, carriage return,
  space and no-break space.
\<close>

definition isWhiteSpace :: "char \<Rightarrow> bool" where
  "isWhiteSpace c = (of_char c \<in> {9, 10, 11, 12, 13, 32, 160 :: nat})"

definition trim :: "string \<Rightarrow> string" where
  "trim t = rev (dropWhile isWhiteSpace (rev (dropWhile isWhiteSpace t)))"

text \<open>\<^verbatim>\<open>raw.startsWith('=')\<close>\<close>

definition startsWithEq :: "string \<Rightarrow> bool" where
  "startsWithEq t = (case t of [] \<Rightarrow> False | c # _ \<Rightarrow> c = CHR ''='')"

definition isDigit :: "char \<Rightarrow> bool" where
  "isDigit c = (c \<in> set ''0123456789'')"

text \<open>The two classes of the pattern \<^verbatim>\<open>/[A-E][1-5]/g\<close> of line 77.\<close>

definition isColLetter :: "char \<Rightarrow> bool" where
  "isColLetter c = (c \<in> set ''ABCDE'')"

definition isRowDigit :: "char \<Rightarrow> bool" where
  "isRowDigit c = (c \<in> set ''12345'')"

text \<open>
  \<^verbatim>\<open>raw.match(/[A-E][1-5]/g) || []\<close>: all matches, left to right, the search resuming
  after each match.
\<close>

fun matchRefs :: "string \<Rightarrow> string list" where
  "matchRefs (a # d # cs) =
     (if isColLetter a \<and> isRowDigit d then [a, d] # matchRefs cs else matchRefs (d # cs))"
| "matchRefs _ = []"

text \<open>
  \<^verbatim>\<open>expr.replaceAll(pat, rep)\<close> for a string pattern: every occurrence, left to right,
  without overlap. (With the empty pattern JavaScript inserts \<open>rep\<close> around every code
  unit; the program never does that, its patterns have two characters.) The replacement
  text of line 90 is a parenthesised number, so the \<^verbatim>\<open>$\<close> patterns of a replacement
  string do not arise.
\<close>

function replaceAll :: "string \<Rightarrow> string \<Rightarrow> string \<Rightarrow> string" where
  "replaceAll pat rep [] = (if pat = [] then rep else [])"
| "replaceAll pat rep (c # cs) =
     (if pat = [] then rep @ c # replaceAll pat rep cs
      else if prefix pat (c # cs) then rep @ replaceAll pat rep (drop (length pat) (c # cs))
      else c # replaceAll pat rep cs)"
  by pat_completeness auto
termination
  by (relation "measure (\<lambda>(pat, rep, t). length t)") (auto simp: neq_Nil_conv)

text \<open>The check of line 94: \<^verbatim>\<open>/^[-+*/().\d\s]+$/.test(expr)\<close>.\<close>

definition allowedChar :: "char \<Rightarrow> bool" where
  "allowedChar c = (c \<in> set ''-+*/().'' \<or> isDigit c \<or> isWhiteSpace c)"

definition validExpr :: "string \<Rightarrow> bool" where
  "validExpr e = (e \<noteq> [] \<and> list_all allowedChar e)"

text \<open>Decimal digits of a natural number, as \<^verbatim>\<open>c + r\<close> of line 25 appends them.\<close>

function decimal :: "nat \<Rightarrow> string" where
  "decimal n =
     (if n < 10 then [char_of (48 + n)] else decimal (n div 10) @ [char_of (48 + n mod 10)])"
  by pat_completeness auto
termination
  by (relation "measure id") auto

declare decimal.simps [simp del]

section \<open>Cells and the grid\<close>

text \<open>
  The class \<^verbatim>\<open>Cell\<close> (lines 2 to 11). The field \<^verbatim>\<open>value\<close> is called \<open>val\<close> here and
  \<^verbatim>\<open>id\<close> is called \<open>cellId\<close>. A JavaScript \<^verbatim>\<open>Set\<close> keeps its elements in insertion order
  and iterates in that order: it is a list without repetition.
\<close>

record Cell =
  cellId :: string
  raw :: string
  val :: jsval
  dependencies :: "string list"
  dependents :: "string list"
  error :: "string option"

definition newCell :: "string \<Rightarrow> Cell" where
  "newCell i = \<lparr>cellId = i, raw = [], val = Str [], dependencies = [], dependents = [],
     error = None\<rparr>"

definition setAdd :: "string \<Rightarrow> string list \<Rightarrow> string list" where
  "setAdd x xs = (if x \<in> set xs then xs else xs @ [x])"

definition setDelete :: "string \<Rightarrow> string list \<Rightarrow> string list" where
  "setDelete x xs = removeAll x xs"

text \<open>
  The grid: \<^verbatim>\<open>cells\<close> is a plain object used as a dictionary from identifiers to
  cells. Its own properties are an association list, in insertion order.
\<close>

record Spreadsheet =
  cols :: nat
  rows :: nat
  cells :: "(string \<times> Cell) list"
  colNames :: "string list"

text \<open>
  The constructor (lines 15 to 29). \<^verbatim>\<open>String.fromCharCode(65 + i)\<close> is a code unit
  below 256 up to 191 columns.
\<close>

definition newSpreadsheet :: "nat \<Rightarrow> nat \<Rightarrow> Spreadsheet" where
  "newSpreadsheet c r =
     (let names = map (\<lambda>i. [char_of (65 + i)]) [0..<c]
      in \<lparr>cols = c, rows = r,
          cells = concat (map (\<lambda>n. map (\<lambda>k. (n @ decimal k, newCell (n @ decimal k))) [1..<Suc r]) names),
          colNames = names\<rparr>)"

text \<open>The own property \<^verbatim>\<open>cells[k]\<close>, when there is one.\<close>

definition own :: "Spreadsheet \<Rightarrow> string \<Rightarrow> Cell option" where
  "own s k = map_of (cells s) k"

text \<open>
  \<^verbatim>\<open>cells\<close> is created by the literal \<^verbatim>\<open>{}\<close> (line 18), so its prototype is
  \<^verbatim>\<open>Object.prototype\<close> and a read \<^verbatim>\<open>this.cells[k]\<close> of a name that is not an own
  property finds the members of that prototype: functions, and \<^verbatim>\<open>Object.prototype\<close>
  itself under \<^verbatim>\<open>__proto__\<close>. All of them are objects, hence truthy, and none has a
  property \<^verbatim>\<open>dependencies\<close>, \<^verbatim>\<open>dependents\<close> or \<^verbatim>\<open>value\<close>.
\<close>

definition objectPrototypeNames :: "string list" where
  "objectPrototypeNames =
     [''constructor'', ''hasOwnProperty'', ''isPrototypeOf'', ''propertyIsEnumerable'',
      ''toLocaleString'', ''toString'', ''valueOf'', ''__proto__'', ''__defineGetter__'',
      ''__defineSetter__'', ''__lookupGetter__'', ''__lookupSetter__'']"

datatype lookup = OwnCell Cell | Inherited | Absent

definition lookupCell :: "Spreadsheet \<Rightarrow> string \<Rightarrow> lookup" where
  "lookupCell s k =
     (case own s k of Some c \<Rightarrow> OwnCell c
      | None \<Rightarrow> if k \<in> set objectPrototypeNames then Inherited else Absent)"

text \<open>
  An assignment to fields of the cell stored under \<open>k\<close>; as \<^verbatim>\<open>this.cells[k]?.f\<close>, it
  does nothing when there is no such cell. It never adds or removes a key.
\<close>

definition modify :: "string \<Rightarrow> (Cell \<Rightarrow> Cell) \<Rightarrow> Spreadsheet \<Rightarrow> Spreadsheet" where
  "modify k f s = s\<lparr>cells := map (\<lambda>p. if fst p = k then (fst p, f (snd p)) else p) (cells s)\<rparr>"

lemma own_modify [simp]:
  "own (modify k f s) k' = (if k' = k then map_option f (own s k') else own s k')"
proof -
  have "map_of (map (\<lambda>p. if fst p = k then (fst p, f (snd p)) else p) xs) k' =
        (if k' = k then map_option f (map_of xs k') else map_of xs k')" for xs
    by (induction xs) auto
  then show ?thesis by (simp add: own_def modify_def)
qed

lemma keys_modify [simp]: "map fst (cells (modify k f s)) = map fst (cells s)"
  by (simp add: modify_def comp_def if_distrib [of fst])

section \<open>Evaluation\<close>

text \<open>Lines 63 to 69: the value of a trimmed text that is not a formula.\<close>

definition literal :: "host \<Rightarrow> string \<Rightarrow> jsval" where
  "literal h t =
     (if t = [] then Str []
      else if toNumber h t \<noteq> NaN then Num (toNumber h t)
      else Str t)"

text \<open>Line 87: \<^verbatim>\<open>this.cells[ref]?.value\<close>, for a match of the pattern.\<close>

definition refValue :: "Spreadsheet \<Rightarrow> string \<Rightarrow> jsval" where
  "refValue s r = (case own s r of None \<Rightarrow> Undefined | Some c \<Rightarrow> val c)"

text \<open>Lines 88 and 89: what stands in for a value in the expression.\<close>

definition coerce :: "host \<Rightarrow> jsval \<Rightarrow> jsval" where
  "coerce h v =
     (if v = Undefined \<or> v = Str [] then Num (Fin 0)
      else case v of Str t \<Rightarrow> if toNumber h t = NaN then Num (Fin 0) else v | _ \<Rightarrow> v)"

text \<open>Lines 79 and 80: both directions of one edge.\<close>

definition addEdge :: "string \<Rightarrow> string \<Rightarrow> Spreadsheet \<Rightarrow> Spreadsheet" where
  "addEdge i r s =
     modify r (\<lambda>d. d\<lparr>dependents := setAdd i (dependents d)\<rparr>)
       (modify i (\<lambda>c. c\<lparr>dependencies := setAdd r (dependencies c)\<rparr>) s)"

text \<open>Lines 94 to 101, once the expression is there: the check, the run, the catch.\<close>

definition finish :: "host \<Rightarrow> string \<Rightarrow> string \<Rightarrow> Spreadsheet \<Rightarrow> Spreadsheet" where
  "finish h i expr s =
     (if \<not> validExpr expr
      then modify i (\<lambda>c. c\<lparr>val := Str ''#ERR'', error := Some ''Invalid formula''\<rparr>) s
      else case run h expr of
        Inl msg \<Rightarrow> modify i (\<lambda>c. c\<lparr>val := Str ''#ERR'', error := Some msg\<rparr>) s
      | Inr v \<Rightarrow> modify i (\<lambda>c. c\<lparr>val := v, error := None\<rparr>) s)"

text \<open>Every match of the pattern is one of these twenty-five texts.\<close>

definition allRefs :: "string set" where
  "allRefs = {[a, d] | a d. isColLetter a \<and> isRowDigit d}"

lemma matchRefs_allRefs: "r \<in> set (matchRefs t) \<Longrightarrow> r \<in> allRefs"
  by (induction t rule: matchRefs.induct) (auto simp: allRefs_def split: if_splits)

lemma finite_allRefs: "finite allRefs"
proof -
  have "allRefs \<subseteq> (\<lambda>(a, d). [a, d]) ` (UNIV \<times> UNIV)"
    by (auto simp: allRefs_def)
  then show ?thesis by (rule finite_subset) simp
qed

text \<open>
  \<^verbatim>\<open>_evaluateCell\<close> (lines 51 to 103). The set \<^verbatim>\<open>visited\<close> is shared and mutated in the
  source; every call that adds its cell (line 59) deletes it again before it returns
  (lines 71 and 102, the latter after the catch), and adds it only when it was not
  there, so a call returns with the set as it found it. The model therefore passes the
  set down and does not thread it back.

  The recursive calls are made on matches of the pattern, which never name a member of
  \<^verbatim>\<open>Object.prototype\<close>, so \<^verbatim>\<open>this.cells[cellId]\<close> is an own cell or undefined there.
\<close>

function evaluateCell :: "host \<Rightarrow> Spreadsheet \<Rightarrow> string \<Rightarrow> string set \<Rightarrow> Spreadsheet" where
  "evaluateCell h s i visited =
     (case own s i of
        None \<Rightarrow> s
      | Some cell \<Rightarrow>
          if i \<in> visited
          then modify i (\<lambda>c. c\<lparr>val := Str ''#CIRC'', error := Some ''Circular reference''\<rparr>) s
          else if \<not> startsWithEq (trim (raw cell))
          then modify i (\<lambda>c. c\<lparr>val := literal h (trim (raw cell)), error := None\<rparr>) s
          else
            let refs = matchRefs (trim (raw cell));
                s1 = fold (addEdge i) refs s;
                acc = fold (\<lambda>r acc.
                        let s' = evaluateCell h (fst acc) r (insert i visited)
                        in (s', replaceAll r (''('' @ toStr h (coerce h (refValue s' r)) @ '')'')
                                  (snd acc)))
                      refs (s1, tl (trim (raw cell)))
            in finish h i (snd acc) (fst acc))"
  by pat_completeness auto
termination
proof (relation "measure (\<lambda>(h, s, i, visited).
          card (allRefs - visited) + (if i \<in> allRefs then 0 else 1))", goal_cases)
  case 1
  show ?case by simp
next
  case (2 h s i visited cell refs s1 r acc)
  have r: "r \<in> allRefs" using 2 matchRefs_allRefs by blast
  have fin: "finite (allRefs - visited)" using finite_allRefs by simp
  show ?case
  proof (cases "i \<in> allRefs")
    case True
    with 2 have mem: "i \<in> allRefs - visited" by simp
    have "allRefs - insert i visited = (allRefs - visited) - {i}" by auto
    then have "card (allRefs - insert i visited) < card (allRefs - visited)"
      using card_Diff1_less [OF fin mem] by simp
    with r True show ?thesis by simp
  next
    case False
    then have "allRefs - insert i visited = allRefs - visited" by auto
    with r False show ?thesis by simp
  qed
qed

declare evaluateCell.simps [simp del]

definition keys :: "Spreadsheet \<Rightarrow> string list" where
  "keys s = map fst (cells s)"

text \<open>One turn of the loop of lines 84 to 91, on the pair of the grid and the expression.\<close>

definition substStep ::
  "host \<Rightarrow> string \<Rightarrow> string set \<Rightarrow> string \<Rightarrow> Spreadsheet \<times> string \<Rightarrow> Spreadsheet \<times> string" where
  "substStep h i visited r acc =
     (let s' = evaluateCell h (fst acc) r (insert i visited)
      in (s', replaceAll r (''('' @ toStr h (coerce h (refValue s' r)) @ '')'') (snd acc)))"

lemma keys_modify' [simp]: "keys (modify k f s) = keys s"
  by (simp add: keys_def)

lemma own_keys: "own s k = Some c \<Longrightarrow> k \<in> set (keys s)"
  by (auto simp: own_def keys_def dest: map_of_SomeD intro: rev_image_eqI)

lemma fold_preserves:
  "(\<And>x a. x \<in> set xs \<Longrightarrow> Q a \<Longrightarrow> Q (f x a)) \<Longrightarrow> Q a \<Longrightarrow> Q (fold f xs a)"
  by (induction xs arbitrary: a) auto

lemma evaluateCell_absent: "own s i = None \<Longrightarrow> evaluateCell h s i V = s"
  by (simp add: evaluateCell.simps)

lemma evaluateCell_circular:
  "own s i = Some cell \<Longrightarrow> i \<in> V \<Longrightarrow>
   evaluateCell h s i V =
     modify i (\<lambda>c. c\<lparr>val := Str ''#CIRC'', error := Some ''Circular reference''\<rparr>) s"
  by (simp add: evaluateCell.simps)

lemma evaluateCell_literal:
  "own s i = Some cell \<Longrightarrow> i \<notin> V \<Longrightarrow> \<not> startsWithEq (trim (raw cell)) \<Longrightarrow>
   evaluateCell h s i V =
     modify i (\<lambda>c. c\<lparr>val := literal h (trim (raw cell)), error := None\<rparr>) s"
  by (simp add: evaluateCell.simps)

lemma evaluateCell_formula:
  "own s i = Some cell \<Longrightarrow> i \<notin> V \<Longrightarrow> startsWithEq (trim (raw cell)) \<Longrightarrow>
   evaluateCell h s i V =
     (let refs = matchRefs (trim (raw cell));
          acc = fold (substStep h i V) refs (fold (addEdge i) refs s, tl (trim (raw cell)))
      in finish h i (snd acc) (fst acc))"
  by (simp add: evaluateCell.simps [of h s i] Let_def substStep_def [abs_def])

lemma evaluateCell_cases [case_names absent circular literal formula]:
  assumes "\<And>s i V. own s i = None \<Longrightarrow> P s i V"
    and "\<And>s i V cell. own s i = Some cell \<Longrightarrow> i \<in> V \<Longrightarrow> P s i V"
    and "\<And>s i V cell. own s i = Some cell \<Longrightarrow> i \<notin> V \<Longrightarrow>
           \<not> startsWithEq (trim (raw cell)) \<Longrightarrow> P s i V"
    and "\<And>s i V cell. own s i = Some cell \<Longrightarrow> i \<notin> V \<Longrightarrow>
           startsWithEq (trim (raw cell)) \<Longrightarrow>
           (\<And>r s'. r \<in> set (matchRefs (trim (raw cell))) \<Longrightarrow> P s' r (insert i V)) \<Longrightarrow>
           P s i V"
  shows "P s i V"
proof -
  have "P s i V" for h :: host
  proof (induction h s i V rule: evaluateCell.induct)
    case (1 h s i visited)
    show ?case
    proof (cases "own s i")
      case None
      then show ?thesis by (rule assms(1))
    next
      case (Some cell)
      show ?thesis
      proof (cases "i \<in> visited")
        case True
        with Some show ?thesis by (rule assms(2))
      next
        case notin: False
        show ?thesis
        proof (cases "startsWithEq (trim (raw cell))")
          case False
          with Some notin show ?thesis by (rule assms(3))
        next
          case True
          show ?thesis
          proof (rule assms(4) [OF Some notin True])
            fix r s'
            assume "r \<in> set (matchRefs (trim (raw cell)))"
            then show "P s' r (insert i visited)"
              using 1 [OF Some notin _ refl refl, of r "(s', [])"] True by simp
          qed
        qed
      qed
    qed
  qed
  then show ?thesis .
qed

lemma keys_addEdge [simp]: "keys (addEdge i r s) = keys s"
  by (simp add: addEdge_def)

lemma keys_finish [simp]: "keys (finish h i e s) = keys s"
  by (simp add: finish_def split: sum.splits)

lemma keys_evaluateCell [simp]: "keys (evaluateCell h s i V) = keys s"
proof (induction s i V rule: evaluateCell_cases)
  case (formula s i V cell)
  let ?refs = "matchRefs (trim (raw cell))"
  have k1: "keys (fold (addEdge i) ?refs s) = keys s"
    by (rule fold_preserves [where Q = "\<lambda>a. keys a = keys s"]) auto
  have "keys (fst (fold (substStep h i V) ?refs (fold (addEdge i) ?refs s, tl (trim (raw cell))))) = keys s"
    by (rule fold_preserves [where Q = "\<lambda>a. keys (fst a) = keys s"])
       (auto simp: k1 substStep_def Let_def formula.IH)
  then show ?case
    using formula by (simp add: evaluateCell_formula Let_def)
qed (simp_all add: evaluateCell_absent evaluateCell_circular evaluateCell_literal)

section \<open>Propagation\<close>

text \<open>
  \<^verbatim>\<open>_updateDependents\<close> (lines 105 to 113), with the loop of lines 109 to 112 as
  \<open>updateEach\<close>. Here \<^verbatim>\<open>visited\<close> is shared by the whole sweep, so it is threaded
  through. A cell that is not there makes \<^verbatim>\<open>cell.dependents\<close> (line 109) throw a
  \<^verbatim>\<open>TypeError\<close>.

  The loop iterates over the set \<^verbatim>\<open>cell.dependents\<close> while \<^verbatim>\<open>_evaluateCell\<close> may add to
  such sets. The model iterates over the elements the set has when the loop starts;
  the lemma \<open>dependents_evaluateCell\<close> below shows that on every grid the program can
  reach, \<^verbatim>\<open>_evaluateCell\<close> leaves every \<^verbatim>\<open>dependents\<close> set as it is, so the two agree.
\<close>

datatype exn = TypeError

function updateDependents ::
    "host \<Rightarrow> Spreadsheet \<Rightarrow> string \<Rightarrow> string set \<Rightarrow> exn + Spreadsheet \<times> string set"
  and updateEach ::
    "host \<Rightarrow> string list \<Rightarrow> Spreadsheet \<Rightarrow> string set \<Rightarrow> exn + Spreadsheet \<times> string set"
where
  "updateDependents h s i visited =
     (if i \<in> visited then Inr (s, visited)
      else case own s i of
        None \<Rightarrow> Inl TypeError
      | Some cell \<Rightarrow> updateEach h (dependents cell) s (insert i visited))"
| "updateEach h [] s visited = Inr (s, visited)"
| "updateEach h (d # ds) s visited =
     (case updateDependents h (evaluateCell h s d {}) d visited of
        Inl e \<Rightarrow> Inl e
      | Inr sv \<Rightarrow> updateEach h ds (fst sv) (snd sv))"
  by pat_completeness auto

lemma updateDependents_partial:
  "updateDependents_updateEach_dom (Inl (h, s, i, V)) \<Longrightarrow>
     updateDependents h s i V = Inr (s', V') \<Longrightarrow> keys s' = keys s \<and> V \<subseteq> V'"
  "updateDependents_updateEach_dom (Inr (h, ds, s, V)) \<Longrightarrow>
     updateEach h ds s V = Inr (s', V') \<Longrightarrow> keys s' = keys s \<and> V \<subseteq> V'"
proof (induction h s i V and h ds s V arbitrary: s' V' and s' V'
       rule: updateDependents_updateEach.pinduct)
  case (1 h s i visited)
  then show ?case
    by (auto simp: updateDependents.psimps split: if_splits option.splits)
next
  case (2 h s visited)
  then show ?case by (simp add: updateEach.psimps)
next
  case (3 h d ds s visited)
  from 3(1,4) obtain s1 V1 where
    a: "updateDependents h (evaluateCell h s d {}) d visited = Inr (s1, V1)" and
    b: "updateEach h ds s1 V1 = Inr (s', V')"
    by (auto simp: updateEach.psimps split: sum.splits)
  from 3(2) [OF a] have "keys s1 = keys s" "visited \<subseteq> V1" by simp_all
  moreover from 3(3) [OF a] b have "keys s' = keys s1" "V1 \<subseteq> V'" by simp_all
  ultimately show ?case by auto
qed

termination updateDependents
proof (relation "inv_image (less_than <*lex*> less_than)
    (\<lambda>x. case x of
       Inl (h, s, i, V) \<Rightarrow> (card (set (keys s) - V), 0)
     | Inr (h, ds, s, V) \<Rightarrow> (card (set (keys s) - V), Suc (length ds)))", goal_cases)
  case 1
  show ?case by (auto intro: wf_inv_image)
next
  case (2 h s i visited cell)
  then have mem: "i \<in> set (keys s) - visited" by (simp add: own_keys)
  have "set (keys s) - insert i visited = (set (keys s) - visited) - {i}" by auto
  then have "card (set (keys s) - insert i visited) < card (set (keys s) - visited)"
    using card_Diff1_less [OF _ mem] by simp
  then show ?case by simp
next
  case (3 h d ds s visited)
  show ?case by simp
next
  case (4 h d ds s visited sv)
  then have "keys (fst sv) = keys s \<and> visited \<subseteq> snd sv"
    using updateDependents_partial(1) [of h "evaluateCell h s d {}" d visited "fst sv" "snd sv"]
    by simp
  then have "card (set (keys (fst sv)) - snd sv) \<le> card (set (keys s) - visited)"
    by (auto intro!: card_mono)
  then show ?case by (cases sv) auto
qed


section \<open>The two operations\<close>

text \<open>
  \<^verbatim>\<open>setCell\<close> (lines 31 to 45). The guard of line 32 tests \<^verbatim>\<open>this.cells[cellId]\<close> for
  truthiness. For a name inherited from \<^verbatim>\<open>Object.prototype\<close> the guard lets the call
  through, lines 34 and 35 write two properties of the inherited object, and line 37
  iterates over its \<^verbatim>\<open>dependencies\<close>, which is \<^verbatim>\<open>undefined\<close>: a \<^verbatim>\<open>TypeError\<close>. No cell
  has changed by then.
\<close>

definition setCell :: "host \<Rightarrow> Spreadsheet \<Rightarrow> string \<Rightarrow> string \<Rightarrow> exn + Spreadsheet" where
  "setCell h s i valueOrFormula =
     (case lookupCell s i of
        Absent \<Rightarrow> Inr s
      | Inherited \<Rightarrow> Inl TypeError
      | OwnCell cell \<Rightarrow>
          let s1 = modify i (\<lambda>c. c\<lparr>raw := valueOrFormula, error := None\<rparr>) s;
              s2 = fold (\<lambda>dep. modify dep (\<lambda>d. d\<lparr>dependents := setDelete i (dependents d)\<rparr>))
                     (dependencies cell) s1;
              s3 = modify i (\<lambda>c. c\<lparr>dependencies := []\<rparr>) s2;
              s4 = evaluateCell h s3 i {}
          in map_sum id fst (updateDependents h s4 i {}))"

text \<open>\<^verbatim>\<open>getCell\<close> (lines 47 to 49): \<^verbatim>\<open>this.cells[cellId]?.value\<close>.\<close>

definition getCell :: "Spreadsheet \<Rightarrow> string \<Rightarrow> jsval" where
  "getCell s i =
     (case lookupCell s i of
        OwnCell c \<Rightarrow> val c
      | Inherited \<Rightarrow> Undefined
      | Absent \<Rightarrow> Undefined)"

text \<open>The \<^verbatim>\<open>error\<close> field of a cell, as the display reads it (line 126).\<close>

definition errorOf :: "Spreadsheet \<Rightarrow> string \<Rightarrow> string option" where
  "errorOf s i = (case own s i of None \<Rightarrow> None | Some c \<Rightarrow> error c)"

section \<open>A reference host\<close>

text \<open>
  To run the program on concrete inputs the model needs one concrete host. \<open>refHost\<close>
  computes with exact rationals: it agrees with a JavaScript engine wherever every
  number involved is a double that the operation yields without rounding (all integers
  of magnitude below \<open>2^53\<close> and the usual short decimal fractions written as text).
  Its \<open>run\<close> covers the expressions built from decimal numerals without a leading
  zero, the four binary operators, the two unary signs, parentheses, spaces and tabs;
  for an expression with a line break, a comment, a regular expression literal, the
  operator \<^verbatim>\<open>**\<close> or a numeral with a leading zero it answers \<open>Inl ''unsupported''\<close>,
  and no theorem below runs it on one. Negative zero is not told apart from zero.
  The message of an error the engine throws depends on the engine; \<open>''error''\<close> stands
  for it.
\<close>

definition digitsVal :: "string \<Rightarrow> nat" where
  "digitsVal ds = foldl (\<lambda>n c. 10 * n + (of_char c - 48)) 0 ds"

subsection \<open>Arithmetic of doubles, without rounding\<close>

fun negN :: "jsnum \<Rightarrow> jsnum" where
  "negN (Fin a) = Fin (- a)"
| "negN PosInf = NegInf"
| "negN NegInf = PosInf"
| "negN NaN = NaN"

fun addN :: "jsnum \<Rightarrow> jsnum \<Rightarrow> jsnum" where
  "addN NaN _ = NaN"
| "addN _ NaN = NaN"
| "addN (Fin a) (Fin b) = Fin (a + b)"
| "addN PosInf NegInf = NaN"
| "addN NegInf PosInf = NaN"
| "addN PosInf _ = PosInf"
| "addN NegInf _ = NegInf"
| "addN (Fin a) b = b"

definition signN :: "jsnum \<Rightarrow> int" where
  "signN x = (case x of Fin a \<Rightarrow> (if a < 0 then -1 else if a = 0 then 0 else 1)
      | PosInf \<Rightarrow> 1 | NegInf \<Rightarrow> -1 | NaN \<Rightarrow> 0)"

definition infOfSign :: "int \<Rightarrow> jsnum" where
  "infOfSign k = (if k < 0 then NegInf else if k = 0 then NaN else PosInf)"

fun mulN :: "jsnum \<Rightarrow> jsnum \<Rightarrow> jsnum" where
  "mulN NaN _ = NaN"
| "mulN _ NaN = NaN"
| "mulN (Fin a) (Fin b) = Fin (a * b)"
| "mulN a b = infOfSign (signN a * signN b)"

fun divN :: "jsnum \<Rightarrow> jsnum \<Rightarrow> jsnum" where
  "divN NaN _ = NaN"
| "divN _ NaN = NaN"
| "divN (Fin a) (Fin b) = (if b = 0 then infOfSign (signN (Fin a)) else Fin (a / b))"
| "divN (Fin a) _ = Fin 0"
| "divN a (Fin b) = infOfSign (signN a * (if b < 0 then -1 else 1))"
| "divN _ _ = NaN"

subsection \<open>Numerals and tokens\<close>

datatype token = TNum rat | TPlus | TMinus | TStar | TSlash | TLParen | TRParen

text \<open>
  A decimal literal at the head of the text: the digits before the point, an optional
  point with the digits after it.
\<close>

definition pointDigits :: "string \<Rightarrow> string" where
  "pointDigits r = (case r of c # u \<Rightarrow> if c = CHR ''.'' then takeWhile isDigit u else [] | [] \<Rightarrow> [])"

definition afterPoint :: "string \<Rightarrow> string" where
  "afterPoint r = (case r of c # u \<Rightarrow> if c = CHR ''.'' then dropWhile isDigit u else r | [] \<Rightarrow> [])"

definition decimalLiteral :: "string \<Rightarrow> (string + rat) \<times> string" where
  "decimalLiteral t =
     (let ip = takeWhile isDigit t;
          fp = pointDigits (dropWhile isDigit t);
          rest = afterPoint (dropWhile isDigit t)
      in if ip = [] \<and> fp = [] then (Inl ''error'', rest)
         else if length ip > 1 \<and> hd ip = CHR ''0'' then (Inl ''unsupported'', rest)
         else (Inr (of_nat (digitsVal (ip @ fp)) / of_nat (10 ^ length fp)), rest))"

lemma snd_decimalLiteral: "snd (decimalLiteral t) = afterPoint (dropWhile isDigit t)"
  by (simp add: decimalLiteral_def Let_def)

lemma length_afterPoint: "length (afterPoint r) \<le> length r"
  by (auto simp: afterPoint_def length_dropWhile_le le_SucI split: list.splits)

lemma decimalLiteral_shorter:
  assumes "isDigit c \<or> c = CHR ''.''"
  shows "length (snd (decimalLiteral (c # cs))) < length (c # cs)"
proof (cases "isDigit c")
  case True
  have "length (afterPoint (dropWhile isDigit cs)) \<le> length (dropWhile isDigit cs)"
    by (rule length_afterPoint)
  also have "\<dots> \<le> length cs" by (rule length_dropWhile_le)
  finally show ?thesis using True by (simp add: snd_decimalLiteral)
next
  case False
  with assms have c: "c = CHR ''.''" by simp
  have "length (dropWhile isDigit cs) \<le> length cs" by (rule length_dropWhile_le)
  then show ?thesis using False c by (simp add: snd_decimalLiteral afterPoint_def)
qed

function tokens :: "string \<Rightarrow> string + token list" where
  "tokens [] = Inr []"
| "tokens (c # cs) =
     (if c = CHR 0x0A \<or> c = CHR 0x0D then Inl ''unsupported''
      else if isWhiteSpace c then tokens cs
      else if isDigit c \<or> c = CHR ''.'' then
        (case decimalLiteral (c # cs) of
           (Inl e, _) \<Rightarrow> Inl e
         | (Inr q, rest) \<Rightarrow> map_sum id ((#) (TNum q)) (tokens rest))
      else if c = CHR ''('' then map_sum id ((#) TLParen) (tokens cs)
      else if c = CHR '')'' then map_sum id ((#) TRParen) (tokens cs)
      else if c = CHR ''+'' then
        (if cs \<noteq> [] \<and> hd cs = CHR ''+'' then Inl ''error''
         else map_sum id ((#) TPlus) (tokens cs))
      else if c = CHR ''-'' then
        (if cs \<noteq> [] \<and> hd cs = CHR ''-'' then Inl ''error''
         else map_sum id ((#) TMinus) (tokens cs))
      else if c = CHR ''*'' then
        (if cs \<noteq> [] \<and> hd cs = CHR ''*'' then Inl ''unsupported''
         else map_sum id ((#) TStar) (tokens cs))
      else if c = CHR ''/'' then
        (if cs \<noteq> [] \<and> (hd cs = CHR ''/'' \<or> hd cs = CHR ''*'') then Inl ''unsupported''
         else map_sum id ((#) TSlash) (tokens cs))
      else Inl ''error'')"
  by pat_completeness auto
termination
proof (relation "measure length", goal_cases)
  case (3 c cs x xa y)
  then have "snd (decimalLiteral (c # cs)) = xa" by (metis snd_conv)
  with 3 show ?case
    using decimalLiteral_shorter [of c cs] by simp
qed auto


subsection \<open>Evaluation with an operator stack\<close>

datatype opr = Add | Sub | Mul | Div | UPlus | UMinus | Paren

fun prec :: "opr \<Rightarrow> nat" where
  "prec Paren = 0"
| "prec Add = 1"
| "prec Sub = 1"
| "prec Mul = 2"
| "prec Div = 2"
| "prec UPlus = 3"
| "prec UMinus = 3"

fun applyOp :: "opr \<Rightarrow> jsnum list \<Rightarrow> jsnum list" where
  "applyOp Add (b # a # vs) = addN a b # vs"
| "applyOp Sub (b # a # vs) = addN a (negN b) # vs"
| "applyOp Mul (b # a # vs) = mulN a b # vs"
| "applyOp Div (b # a # vs) = divN a b # vs"
| "applyOp UMinus (a # vs) = negN a # vs"
| "applyOp _ vs = vs"

text \<open>
  Apply the pending operators that bind at least as tightly as \<open>p\<close>, down to the
  innermost open parenthesis.
\<close>

fun reduce :: "nat \<Rightarrow> opr list \<Rightarrow> jsnum list \<Rightarrow> opr list \<times> jsnum list" where
  "reduce p [] vs = ([], vs)"
| "reduce p (x # os) vs =
     (if x \<noteq> Paren \<and> p \<le> prec x then reduce p os (applyOp x vs) else (x # os, vs))"

text \<open>
  \<open>expect\<close> says that an operand must come next. A sign in that position is unary; a
  slash there would start a regular expression literal.
\<close>

fun shunt :: "token list \<Rightarrow> bool \<Rightarrow> opr list \<Rightarrow> jsnum list \<Rightarrow> string + jsnum" where
  "shunt [] expect os vs =
     (if expect then Inl ''error''
      else case reduce 1 os vs of ([], [v]) \<Rightarrow> Inr v | _ \<Rightarrow> Inl ''error'')"
| "shunt (TNum q # ts) expect os vs =
     (if expect then shunt ts False os (Fin q # vs) else Inl ''error'')"
| "shunt (TLParen # ts) expect os vs =
     (if expect then shunt ts True (Paren # os) vs else Inl ''error'')"
| "shunt (TRParen # ts) expect os vs =
     (if expect then Inl ''error''
      else case reduce 1 os vs of
        (Paren # os', vs') \<Rightarrow> shunt ts False os' vs'
      | _ \<Rightarrow> Inl ''error'')"
| "shunt (TPlus # ts) expect os vs =
     (if expect then shunt ts True (UPlus # os) vs
      else shunt ts True (Add # fst (reduce 1 os vs)) (snd (reduce 1 os vs)))"
| "shunt (TMinus # ts) expect os vs =
     (if expect then shunt ts True (UMinus # os) vs
      else shunt ts True (Sub # fst (reduce 1 os vs)) (snd (reduce 1 os vs)))"
| "shunt (TStar # ts) expect os vs =
     (if expect then Inl ''error''
      else shunt ts True (Mul # fst (reduce 2 os vs)) (snd (reduce 2 os vs)))"
| "shunt (TSlash # ts) expect os vs =
     (if expect then Inl ''unsupported''
      else shunt ts True (Div # fst (reduce 2 os vs)) (snd (reduce 2 os vs)))"

definition runRef :: "string \<Rightarrow> string + jsval" where
  "runRef expr =
     (case tokens expr of
        Inl e \<Rightarrow> Inl e
      | Inr ts \<Rightarrow> map_sum id Num (shunt ts True [] []))"

subsection \<open>Text to number and back\<close>

text \<open>An exponent part, or nothing: \<open>None\<close> when the text is neither.\<close>

definition exponentPart :: "string \<Rightarrow> int option" where
  "exponentPart r =
     (case r of
        [] \<Rightarrow> Some 0
      | c # u \<Rightarrow>
          if c = CHR ''e'' \<or> c = CHR ''E'' then
            (let neg = (u \<noteq> [] \<and> hd u = CHR ''-'');
                 ds = (if u \<noteq> [] \<and> (hd u = CHR ''-'' \<or> hd u = CHR ''+'') then tl u else u)
             in if ds \<noteq> [] \<and> list_all isDigit ds
                then Some (if neg then - int (digitsVal ds) else int (digitsVal ds))
                else None)
          else None)"

definition unsignedDecimal :: "string \<Rightarrow> jsnum" where
  "unsignedDecimal t =
     (if t = ''Infinity'' then PosInf
      else
        let ip = takeWhile isDigit t;
            fp = pointDigits (dropWhile isDigit t);
            m = of_nat (digitsVal (ip @ fp)) / of_nat (10 ^ length fp)
        in if ip = [] \<and> fp = [] then NaN
           else case exponentPart (afterPoint (dropWhile isDigit t)) of
             None \<Rightarrow> NaN
           | Some e \<Rightarrow> Fin (if 0 \<le> e then m * 10 ^ nat e else m / 10 ^ nat (- e)))"

definition radixDigit :: "char \<Rightarrow> nat" where
  "radixDigit c =
     (if isDigit c then of_char c - 48
      else if c \<in> set ''abcdef'' then of_char c - 87
      else if c \<in> set ''ABCDEF'' then of_char c - 55
      else 99)"

definition radixLiteral :: "nat \<Rightarrow> string \<Rightarrow> jsnum" where
  "radixLiteral b ds =
     (if ds \<noteq> [] \<and> list_all (\<lambda>c. radixDigit c < b) ds
      then Fin (of_nat (foldl (\<lambda>n c. b * n + radixDigit c) 0 ds))
      else NaN)"

text \<open>\<^verbatim>\<open>Number(text)\<close>: the grammar of a string numeric literal.\<close>

definition toNumberRef :: "string \<Rightarrow> jsnum" where
  "toNumberRef t =
     (let u = trim t
      in case u of
        [] \<Rightarrow> Fin 0
      | c # r \<Rightarrow>
          if c = CHR ''0'' \<and> r \<noteq> [] \<and> hd r \<in> set ''xX'' then radixLiteral 16 (tl r)
          else if c = CHR ''0'' \<and> r \<noteq> [] \<and> hd r \<in> set ''oO'' then radixLiteral 8 (tl r)
          else if c = CHR ''0'' \<and> r \<noteq> [] \<and> hd r \<in> set ''bB'' then radixLiteral 2 (tl r)
          else if c = CHR ''+'' then unsignedDecimal r
          else if c = CHR ''-'' then negN (unsignedDecimal r)
          else unsignedDecimal u)"

fun fracDigits :: "nat \<Rightarrow> nat \<Rightarrow> nat \<Rightarrow> string" where
  "fracDigits 0 r d = []"
| "fracDigits (Suc k) r d =
     (if r = 0 then [] else char_of (48 + (10 * r) div d) # fracDigits k ((10 * r) mod d) d)"

text \<open>
  \<^verbatim>\<open>String(n)\<close> in plain decimal notation (an engine switches to exponent notation from
  \<open>10^21\<close> on and below \<open>10^-6\<close>), with at most seventeen digits after the point.
\<close>

definition finToStringRef :: "rat \<Rightarrow> string" where
  "finToStringRef q =
     (let n = fst (quotient_of q); d = nat (snd (quotient_of q)); a = nat \<bar>n\<bar>
      in (if n < 0 then ''-'' else []) @ decimal (a div d) @
         (if a mod d = 0 then [] else CHR ''.'' # fracDigits 17 (a mod d) d))"

definition refHost :: host where
  "refHost = \<lparr>toNumber = toNumberRef, finToString = finToStringRef, run = runRef\<rparr>"


section \<open>Sequences of calls\<close>

text \<open>
  A caller's script: \<^verbatim>\<open>setCell\<close> for each pair in turn. An exception ends the script, as
  it would end the caller.
\<close>

fun setCells :: "host \<Rightarrow> Spreadsheet \<Rightarrow> (string \<times> string) list \<Rightarrow> exn + Spreadsheet" where
  "setCells h s [] = Inr s"
| "setCells h s ((i, v) # rest) =
     (case setCell h s i v of Inl e \<Rightarrow> Inl e | Inr s' \<Rightarrow> setCells h s' rest)"

section \<open>The reference pattern\<close>

lemma classes_disjoint: "isColLetter c \<Longrightarrow> isRowDigit c \<Longrightarrow> False"
  by (auto simp: isColLetter_def isRowDigit_def)

lemma matchRefs_occurs: "x \<in> set (matchRefs t) \<Longrightarrow> \<exists>pre post. t = pre @ x @ post"
proof (induction t rule: matchRefs.induct)
  case (1 a d cs)
  show ?case
  proof (cases "isColLetter a \<and> isRowDigit d")
    case True
    with 1 consider "x = [a, d]" | "x \<in> set (matchRefs cs)" by auto
    then show ?thesis
    proof cases
      case 1
      then have "a # d # cs = [] @ x @ cs" by simp
      then show ?thesis by blast
    next
      case 2
      with 1(1) True obtain pre post where "cs = pre @ x @ post" by blast
      then have "a # d # cs = (a # d # pre) @ x @ post" by simp
      then show ?thesis by blast
    qed
  next
    case False
    with 1 obtain pre post where "d # cs = pre @ x @ post" by auto
    then have "a # d # cs = (a # pre) @ x @ post" by simp
    then show ?thesis by blast
  qed
qed simp_all

lemma occurs_matchRefs:
  "isColLetter a \<Longrightarrow> isRowDigit d \<Longrightarrow> [a, d] \<in> set (matchRefs (pre @ a # d # post))"
proof (induction pre rule: length_induct)
  case (1 pre)
  show ?case
  proof (cases pre)
    case Nil
    with 1 show ?thesis by simp
  next
    case (Cons x pre1)
    show ?thesis
    proof (cases pre1)
      case Nil
      show ?thesis
      proof (cases "isColLetter x \<and> isRowDigit a")
        case True
        with 1(2) show ?thesis using classes_disjoint by blast
      next
        case False
        then have "matchRefs (pre @ a # d # post) = matchRefs (a # d # post)"
          using Cons Nil by auto
        with 1 show ?thesis by simp
      qed
    next
      case (Cons y pre2)
      note c2 = this
      show ?thesis
      proof (cases "isColLetter x \<and> isRowDigit y")
        case True
        then have "matchRefs (pre @ a # d # post) = [x, y] # matchRefs (pre2 @ a # d # post)"
          using \<open>pre = x # pre1\<close> c2 by simp
        moreover have "[a, d] \<in> set (matchRefs (pre2 @ a # d # post))"
          using 1 \<open>pre = x # pre1\<close> c2 by simp
        ultimately show ?thesis by simp
      next
        case False
        then have "matchRefs (pre @ a # d # post) = matchRefs (pre1 @ a # d # post)"
          using \<open>pre = x # pre1\<close> c2 by auto
        moreover have "[a, d] \<in> set (matchRefs (pre1 @ a # d # post))"
          using 1 \<open>pre = x # pre1\<close> by simp
        ultimately show ?thesis by simp
      qed
    qed
  qed
qed

lemma set_matchRefs: "set (matchRefs t) = {x \<in> allRefs. \<exists>pre post. t = pre @ x @ post}"
proof (intro set_eqI iffI)
  fix x assume "x \<in> set (matchRefs t)"
  then show "x \<in> {x \<in> allRefs. \<exists>pre post. t = pre @ x @ post}"
    using matchRefs_allRefs matchRefs_occurs by blast
next
  fix x assume "x \<in> {x \<in> allRefs. \<exists>pre post. t = pre @ x @ post}"
  then obtain a d pre post where "x = [a, d]" "isColLetter a" "isRowDigit d" "t = pre @ x @ post"
    by (auto simp: allRefs_def)
  then show "x \<in> set (matchRefs t)" using occurs_matchRefs by simp
qed

lemma keys_5_5: "keys (newSpreadsheet 5 5) = [''A1'', ''A2'', ''A3'', ''A4'', ''A5'', ''B1'', ''B2'', ''B3'', ''B4'',
  ''B5'', ''C1'', ''C2'', ''C3'', ''C4'', ''C5'', ''D1'', ''D2'', ''D3'',
  ''D4'', ''D5'', ''E1'', ''E2'', ''E3'', ''E4'', ''E5'']"
  by code_simp

lemma allRefs_enum: "allRefs = set [''A1'', ''A2'', ''A3'', ''A4'', ''A5'', ''B1'', ''B2'', ''B3'', ''B4'',
  ''B5'', ''C1'', ''C2'', ''C3'', ''C4'', ''C5'', ''D1'', ''D2'', ''D3'',
  ''D4'', ''D5'', ''E1'', ''E2'', ''E3'', ''E4'', ''E5'']"
proof -
  have gen: "{[a, d] | a d. a \<in> A \<and> d \<in> B} = (\<lambda>(a, d). [a, d]) ` (A \<times> B)"
    for A B :: "char set"
    by auto
  have "allRefs = (\<lambda>(a, d). [a, d]) ` (set ''ABCDE'' \<times> set ''12345'')"
    unfolding allRefs_def isColLetter_def isRowDigit_def by (rule gen)
  also have "\<dots> = set (map (\<lambda>(a, d). [a, d]) (List.product ''ABCDE'' ''12345''))"
    by (simp only: set_map set_product)
  also have "map (\<lambda>(a, d). [a, d]) (List.product ''ABCDE'' ''12345'') = [''A1'', ''A2'', ''A3'', ''A4'', ''A5'', ''B1'', ''B2'', ''B3'', ''B4'',
  ''B5'', ''C1'', ''C2'', ''C3'', ''C4'', ''C5'', ''D1'', ''D2'', ''D3'',
  ''D4'', ''D5'', ''E1'', ''E2'', ''E3'', ''E4'', ''E5'']"
    by code_simp
  finally show ?thesis .
qed

declare updateDependents.simps [simp del]

section \<open>What evaluation leaves alone\<close>

text \<open>A cell without its computed fields.\<close>

definition erase :: "Cell \<Rightarrow> Cell" where
  "erase c = c\<lparr>val := Undefined, error := None\<rparr>"

definition shape :: "Spreadsheet \<Rightarrow> string \<Rightarrow> Cell option" where
  "shape s k = map_option erase (own s k)"

text \<open>The references a raw text contributes: those of a formula, none otherwise.\<close>

definition formulaRefs :: "string \<Rightarrow> string list" where
  "formulaRefs rw = (if startsWithEq (trim rw) then matchRefs (trim rw) else [])"

text \<open>
  On a grid the program can reach, the two edge sets of every cell are determined by
  the raw texts: a cell depends on the references of its formula, and its dependents
  are the cells whose formula refers to it.
\<close>

definition wellFormed :: "Spreadsheet \<Rightarrow> bool" where
  "wellFormed s =
     (\<forall>b cb. own s b = Some cb \<longrightarrow>
        distinct (dependencies cb) \<and> distinct (dependents cb) \<and>
        set (dependencies cb) = set (formulaRefs (raw cb)) \<and>
        set (dependents cb) = {a. \<exists>ca. own s a = Some ca \<and> b \<in> set (formulaRefs (raw ca))})"

lemma shape_eq_iff:
  "shape s k = shape t k \<longleftrightarrow>
     (case (own s k, own t k) of
        (None, None) \<Rightarrow> True
      | (Some c, Some d) \<Rightarrow> erase c = erase d
      | _ \<Rightarrow> False)"
  by (auto simp: shape_def split: option.splits)

lemma erase_eq:
  "erase c = erase d \<longleftrightarrow>
     cellId c = cellId d \<and> raw c = raw d \<and> dependencies c = dependencies d \<and>
     dependents c = dependents d \<and> Cell.more c = Cell.more d"
  by (cases c, cases d) (auto simp: erase_def)

lemma shape_modify_computed:
  assumes "\<And>c. erase (f c) = erase c"
  shows "shape (modify k f s) = shape s"
  by (rule ext) (auto simp: shape_def assms option.map_comp comp_def)

lemma shape_Some: "shape s k = Some e \<Longrightarrow> \<exists>c. own s k = Some c \<and> erase c = e"
  by (auto simp: shape_def)

lemma shape_None [simp]: "shape s k = None \<longleftrightarrow> own s k = None"
  by (simp add: shape_def)

lemma shape_fields:
  assumes "shape s = shape t" "own s k = Some c"
  obtains d where "own t k = Some d" "raw d = raw c" "dependencies d = dependencies c"
    "dependents d = dependents c"
proof -
  from assms have "shape t k = Some (erase c)" by (metis shape_def option.simps(9))
  then obtain d where "own t k = Some d" "erase d = erase c" by (auto simp: shape_def)
  then show ?thesis using that by (auto simp: erase_eq)
qed

lemma wellFormed_shape:
  assumes "shape s = shape t" "wellFormed s"
  shows "wellFormed t"
  unfolding wellFormed_def
proof (intro allI impI)
  fix b cb assume b: "own t b = Some cb"
  from shape_fields [OF assms(1) [symmetric] b] obtain c where
    c: "own s b = Some c" "raw c = raw cb" "dependencies c = dependencies cb"
      "dependents c = dependents cb" by metis
  have eq: "(\<exists>ca. own s a = Some ca \<and> b \<in> set (formulaRefs (raw ca))) \<longleftrightarrow>
            (\<exists>ca. own t a = Some ca \<and> b \<in> set (formulaRefs (raw ca)))" for a
  proof
    assume "\<exists>ca. own s a = Some ca \<and> b \<in> set (formulaRefs (raw ca))"
    then obtain ca where ca: "own s a = Some ca" "b \<in> set (formulaRefs (raw ca))" by blast
    from shape_fields [OF assms(1) ca(1)] ca(2)
    show "\<exists>ca. own t a = Some ca \<and> b \<in> set (formulaRefs (raw ca))" by metis
  next
    assume "\<exists>ca. own t a = Some ca \<and> b \<in> set (formulaRefs (raw ca))"
    then obtain ca where ca: "own t a = Some ca" "b \<in> set (formulaRefs (raw ca))" by blast
    from shape_fields [OF assms(1) [symmetric] ca(1)] ca(2)
    show "\<exists>ca. own s a = Some ca \<and> b \<in> set (formulaRefs (raw ca))" by metis
  qed
  from assms(2) c(1) have
    "distinct (dependencies c) \<and> distinct (dependents c) \<and>
     set (dependencies c) = set (formulaRefs (raw c)) \<and>
     set (dependents c) = {a. \<exists>ca. own s a = Some ca \<and> b \<in> set (formulaRefs (raw ca))}"
    unfolding wellFormed_def by blast
  then show "distinct (dependencies cb) \<and> distinct (dependents cb) \<and>
        set (dependencies cb) = set (formulaRefs (raw cb)) \<and>
        set (dependents cb) = {a. \<exists>ca. own t a = Some ca \<and> b \<in> set (formulaRefs (raw ca))}"
    using c eq by simp
qed

lemma wellFormed_own: "own s = own t \<Longrightarrow> wellFormed s \<Longrightarrow> wellFormed t"
  by (simp add: wellFormed_def)

lemma shape_own: "own s = own t \<Longrightarrow> shape s = shape t"
  by (rule ext) (simp add: shape_def)

lemma shape_finish [simp]: "shape (finish h i e s) = shape s"
  by (auto simp: finish_def erase_def intro!: shape_modify_computed split: sum.splits)

lemma own_modify_id:
  assumes "\<And>c. own s k = Some c \<Longrightarrow> f c = c"
  shows "own (modify k f s) = own s"
proof (rule ext)
  fix k'
  show "own (modify k f s) k' = own s k'"
    using assms by (cases "own s k") auto
qed

lemma setAdd_member: "x \<in> set xs \<Longrightarrow> setAdd x xs = xs"
  by (simp add: setAdd_def)

lemma own_addEdge_wellFormed:
  assumes wf: "wellFormed s" and i: "own s i = Some ci" and r: "r \<in> set (formulaRefs (raw ci))"
  shows "own (addEdge i r s) = own s"
proof -
  let ?s1 = "modify i (\<lambda>c. c\<lparr>dependencies := setAdd r (dependencies c)\<rparr>) s"
  have "r \<in> set (dependencies ci)" using wf i r unfolding wellFormed_def by blast
  then have 1: "own ?s1 = own s"
    using i by (intro own_modify_id) (simp add: setAdd_member)
  have 2: "own (modify r (\<lambda>d. d\<lparr>dependents := setAdd i (dependents d)\<rparr>) ?s1) = own ?s1"
  proof (rule own_modify_id)
    fix c assume "own ?s1 r = Some c"
    then have c: "own s r = Some c" using 1 by simp
    then have "set (dependents c) = {a. \<exists>ca. own s a = Some ca \<and> r \<in> set (formulaRefs (raw ca))}"
      using wf unfolding wellFormed_def by blast
    with i r have "i \<in> set (dependents c)" by blast
    then show "c\<lparr>dependents := setAdd i (dependents c)\<rparr> = c" by (simp add: setAdd_member)
  qed
  show ?thesis unfolding addEdge_def using 1 2 by simp
qed

lemma own_fold_addEdge_wellFormed:
  assumes "wellFormed s" "own s i = Some ci" "set rs \<subseteq> set (formulaRefs (raw ci))"
  shows "own (fold (addEdge i) rs s) = own s"
  using assms
proof (induction rs arbitrary: s)
  case Nil
  then show ?case by simp
next
  case (Cons r rs)
  have e: "own (addEdge i r s) = own s"
    using Cons.prems by (intro own_addEdge_wellFormed) auto
  have "own (fold (addEdge i) rs (addEdge i r s)) = own (addEdge i r s)"
    using Cons.prems e by (intro Cons.IH) (auto intro: wellFormed_own [OF e [symmetric]])
  with e show ?case by simp
qed

lemma formulaRefs_formula: "startsWithEq (trim rw) \<Longrightarrow> formulaRefs rw = matchRefs (trim rw)"
  by (simp add: formulaRefs_def)

lemma formulaRefs_literal: "\<not> startsWithEq (trim rw) \<Longrightarrow> formulaRefs rw = []"
  by (simp add: formulaRefs_def)

text \<open>
  On a well-formed grid \<^verbatim>\<open>_evaluateCell\<close> writes computed fields only: every edge it
  would add (lines 79 and 80) is there already.
\<close>

lemma shape_evaluateCell: "wellFormed s \<Longrightarrow> shape (evaluateCell h s i V) = shape s"
proof (induction s i V rule: evaluateCell_cases)
  case (absent s i V)
  then show ?case by (simp add: evaluateCell_absent)
next
  case (circular s i V cell)
  then show ?case
    by (auto simp: evaluateCell_circular erase_def intro!: shape_modify_computed)
next
  case (literal s i V cell)
  then show ?case
    by (auto simp: evaluateCell_literal erase_def intro!: shape_modify_computed)
next
  case (formula s i V cell)
  let ?refs = "matchRefs (trim (raw cell))"
  let ?s1 = "fold (addEdge i) ?refs s"
  have o1: "own ?s1 = own s"
    using formula by (intro own_fold_addEdge_wellFormed) (auto simp: formulaRefs_formula)
  have "shape (fst (fold (substStep h i V) ?refs (?s1, tl (trim (raw cell))))) = shape s"
  proof (rule fold_preserves [where Q = "\<lambda>a. shape (fst a) = shape s"])
    fix r and a :: "Spreadsheet \<times> string"
    assume r: "r \<in> set ?refs" and a: "shape (fst a) = shape s"
    then have "wellFormed (fst a)" using formula.prems wellFormed_shape by metis
    with formula.IH [OF r] a show "shape (fst (substStep h i V r a)) = shape s"
      by (simp add: substStep_def Let_def)
  qed (simp add: shape_own [OF o1])
  then show ?case using formula by (simp add: evaluateCell_formula Let_def)
qed

lemma wellFormed_evaluateCell: "wellFormed s \<Longrightarrow> wellFormed (evaluateCell h s i V)"
  using shape_evaluateCell wellFormed_shape by metis

lemma dependents_evaluateCell:
  assumes "wellFormed s" "own s k = Some c"
  shows "\<exists>c'. own (evaluateCell h s i V) k = Some c' \<and> dependents c' = dependents c"
  using shape_fields [OF shape_evaluateCell [OF assms(1), symmetric] assms(2)] by metis

lemma own_None_shape: "shape s = shape t \<Longrightarrow> own s k = None \<longleftrightarrow> own t k = None"
  by (metis shape_None)

text \<open>On a well-formed grid the sweep finds every cell it looks for, and returns.\<close>

lemma updateDependents_wellFormed:
  "wellFormed s \<Longrightarrow> own s i \<noteq> None \<Longrightarrow>
     \<exists>s' V'. updateDependents h s i V = Inr (s', V') \<and> shape s' = shape s"
  "wellFormed s \<Longrightarrow> \<forall>d \<in> set ds. own s d \<noteq> None \<Longrightarrow>
     \<exists>s' V'. updateEach h ds s V = Inr (s', V') \<and> shape s' = shape s"
proof (induction h s i V and h ds s V rule: updateDependents_updateEach.induct)
  case (1 h s i visited)
  show ?case
  proof (cases "i \<in> visited")
    case True
    then show ?thesis by (simp add: updateDependents.simps)
  next
    case False
    from 1(3) obtain cell where cell: "own s i = Some cell" by auto
    have "\<forall>d \<in> set (dependents cell). own s d \<noteq> None"
      using 1(2) cell unfolding wellFormed_def by fastforce
    from 1(1) [OF False cell 1(2) this] show ?thesis
      using False cell by (simp add: updateDependents.simps)
  qed
next
  case (2 h s visited)
  then show ?case by simp
next
  case (3 h d ds s visited)
  let ?s1 = "evaluateCell h s d {}"
  have sh1: "shape ?s1 = shape s" using 3(3) by (rule shape_evaluateCell)
  have wf1: "wellFormed ?s1" using 3(3) by (rule wellFormed_evaluateCell)
  have "own ?s1 d \<noteq> None" using 3(4) own_None_shape [OF sh1] by simp
  from 3(1) [OF wf1 this] obtain s2 V2 where
    u: "updateDependents h ?s1 d visited = Inr (s2, V2)" and sh2: "shape s2 = shape ?s1"
    by blast
  have wf2: "wellFormed s2" using wf1 sh2 wellFormed_shape by metis
  have "\<forall>d \<in> set ds. own s2 d \<noteq> None"
    using 3(4) own_None_shape [OF sh1] own_None_shape [OF sh2] by simp
  with 3(2) [OF u] wf2 obtain s' V' where
    "updateEach h ds s2 V2 = Inr (s', V')" "shape s' = shape s2" by auto
  with u sh1 sh2 show ?case by simp
qed

section \<open>Grids the program can reach\<close>

text \<open>Lines 34 to 40 of \<^verbatim>\<open>setCell\<close>: the grid as \<^verbatim>\<open>_evaluateCell\<close> receives it.\<close>

definition prepared :: "string \<Rightarrow> string \<Rightarrow> Cell \<Rightarrow> Spreadsheet \<Rightarrow> Spreadsheet" where
  "prepared i v cell s =
     modify i (\<lambda>c. c\<lparr>dependencies := []\<rparr>)
       (fold (\<lambda>dep. modify dep (\<lambda>d. d\<lparr>dependents := setDelete i (dependents d)\<rparr>))
          (dependencies cell)
          (modify i (\<lambda>c. c\<lparr>raw := v, error := None\<rparr>) s))"

lemma setCell_own:
  "own s i = Some cell \<Longrightarrow>
   setCell h s i v =
     map_sum id fst (updateDependents h (evaluateCell h (prepared i v cell s) i {}) i {})"
  by (simp add: setCell_def lookupCell_def prepared_def Let_def)

lemma setCell_not_own:
  "own s i = None \<Longrightarrow>
   setCell h s i v = (if i \<in> set objectPrototypeNames then Inl TypeError else Inr s)"
  by (simp add: setCell_def lookupCell_def)

lemma own_fold_modify:
  assumes idem: "\<And>c. g (g c) = g c"
  shows "own (fold (\<lambda>dep. modify dep g) deps s) k =
         (if k \<in> set deps then map_option g (own s k) else own s k)"
proof (induction deps arbitrary: s)
  case Nil
  show ?case by simp
next
  case (Cons d deps)
  show ?case
    by (cases "own s k") (auto simp: Cons.IH idem)
qed

lemma own_prepared:
  "own (prepared i v cell s) k =
     map_option (\<lambda>c. c\<lparr>raw := if k = i then v else raw c,
                       error := if k = i then None else error c,
                       dependents := if k \<in> set (dependencies cell)
                                     then removeAll i (dependents c) else dependents c,
                       dependencies := if k = i then [] else dependencies c\<rparr>) (own s k)"
proof -
  have idem: "(\<lambda>d. d\<lparr>dependents := removeAll i (dependents d)\<rparr>)
                ((\<lambda>d. d\<lparr>dependents := removeAll i (dependents d)\<rparr>) c) =
              (\<lambda>d. d\<lparr>dependents := removeAll i (dependents d)\<rparr>) c" for c :: Cell
    by simp
  show ?thesis
    unfolding prepared_def setDelete_def
    by (cases "own s k") (auto simp: own_fold_modify [OF idem])
qed

definition wellFormedBut :: "string \<Rightarrow> Spreadsheet \<Rightarrow> bool" where
  "wellFormedBut i s =
     (\<forall>b cb. own s b = Some cb \<longrightarrow>
        distinct (dependencies cb) \<and> distinct (dependents cb) \<and>
        set (dependencies cb) = (if b = i then {} else set (formulaRefs (raw cb))) \<and>
        set (dependents cb) =
          {a. a \<noteq> i \<and> (\<exists>ca. own s a = Some ca \<and> b \<in> set (formulaRefs (raw ca)))})"

lemma wellFormedBut_prepared:
  assumes wf: "wellFormed s" and i: "own s i = Some cell"
  shows "wellFormedBut i (prepared i v cell s)"
  unfolding wellFormedBut_def
proof (intro allI impI)
  fix b cb' assume b': "own (prepared i v cell s) b = Some cb'"
  then obtain cb where cb: "own s b = Some cb" and
    f: "raw cb' = (if b = i then v else raw cb)"
       "dependents cb' = (if b \<in> set (dependencies cell) then removeAll i (dependents cb)
                          else dependents cb)"
       "dependencies cb' = (if b = i then [] else dependencies cb)"
    by (auto simp: own_prepared)
  from wf cb have w:
    "distinct (dependencies cb)" "distinct (dependents cb)"
    "set (dependencies cb) = set (formulaRefs (raw cb))"
    "set (dependents cb) = {a. \<exists>ca. own s a = Some ca \<and> b \<in> set (formulaRefs (raw ca))}"
    unfolding wellFormed_def by blast+
  from wf i have wi: "set (dependencies cell) = set (formulaRefs (raw cell))"
    unfolding wellFormed_def by blast
  have raws: "(\<exists>ca. own (prepared i v cell s) a = Some ca \<and> b \<in> set (formulaRefs (raw ca))) \<longleftrightarrow>
              (\<exists>ca. own s a = Some ca \<and> b \<in> set (formulaRefs (raw ca)))" if "a \<noteq> i" for a
    using that by (cases "own s a") (auto simp: own_prepared)
  have "set (dependents cb') = set (dependents cb) - {i}"
  proof (cases "b \<in> set (dependencies cell)")
    case True
    then show ?thesis by (simp add: f)
  next
    case False
    then have "i \<notin> set (dependents cb)" using w(4) wi i by auto
    with False show ?thesis by (simp add: f)
  qed
  also have "\<dots> = {a. a \<noteq> i \<and> (\<exists>ca. own s a = Some ca \<and> b \<in> set (formulaRefs (raw ca)))}"
    using w(4) by auto
  also have "\<dots> = {a. a \<noteq> i \<and>
      (\<exists>ca. own (prepared i v cell s) a = Some ca \<and> b \<in> set (formulaRefs (raw ca)))}"
    by (simp add: raws cong: conj_cong)
  finally have d: "set (dependents cb') = {a. a \<noteq> i \<and>
      (\<exists>ca. own (prepared i v cell s) a = Some ca \<and> b \<in> set (formulaRefs (raw ca)))}" .
  show "distinct (dependencies cb') \<and> distinct (dependents cb') \<and>
        set (dependencies cb') = (if b = i then {} else set (formulaRefs (raw cb'))) \<and>
        set (dependents cb') = {a. a \<noteq> i \<and>
          (\<exists>ca. own (prepared i v cell s) a = Some ca \<and> b \<in> set (formulaRefs (raw ca)))}"
    using w d by (simp add: f distinct_removeAll)
qed

lemma own_addEdge:
  "own (addEdge i r s) k =
     map_option (\<lambda>c. c\<lparr>dependencies := if k = i then setAdd r (dependencies c) else dependencies c,
                       dependents := if k = r then setAdd i (dependents c) else dependents c\<rparr>)
       (own s k)"
  by (cases "own s k") (auto simp: addEdge_def)

lemma set_setAdd [simp]: "set (setAdd x xs) = insert x (set xs)"
  by (auto simp: setAdd_def)

lemma distinct_setAdd [simp]: "distinct (setAdd x xs) = distinct xs"
  by (auto simp: setAdd_def)

lemma own_fold_addEdge:
  "own (fold (addEdge i) rs s) k =
     map_option (\<lambda>c. c\<lparr>dependencies := if k = i then fold setAdd rs (dependencies c)
                                        else dependencies c,
                       dependents := if k \<in> set rs then setAdd i (dependents c)
                                      else dependents c\<rparr>)
       (own s k)"
proof (induction rs arbitrary: s)
  case Nil
  show ?case by (cases "own s k") auto
next
  case (Cons r rs)
  show ?case
    by (cases "own s k") (auto simp: Cons.IH own_addEdge setAdd_def)
qed

lemma set_fold_setAdd [simp]: "set (fold setAdd rs ds) = set ds \<union> set rs"
  by (induction rs arbitrary: ds) auto

lemma distinct_fold_setAdd [simp]: "distinct (fold setAdd rs ds) = distinct ds"
  by (induction rs arbitrary: ds) auto

lemma wellFormed_fold_addEdge:
  assumes wb: "wellFormedBut i s" and i: "own s i = Some ci"
  shows "wellFormed (fold (addEdge i) (formulaRefs (raw ci)) s)"
  unfolding wellFormed_def
proof (intro allI impI)
  let ?rs = "formulaRefs (raw ci)"
  let ?t = "fold (addEdge i) ?rs s"
  fix b cb' assume "own ?t b = Some cb'"
  then obtain cb where cb: "own s b = Some cb" and
    f: "raw cb' = raw cb"
       "dependencies cb' = (if b = i then fold setAdd ?rs (dependencies cb) else dependencies cb)"
       "dependents cb' = (if b \<in> set ?rs then setAdd i (dependents cb) else dependents cb)"
    by (auto simp: own_fold_addEdge)
  from wb cb have w:
    "distinct (dependencies cb)" "distinct (dependents cb)"
    "set (dependencies cb) = (if b = i then {} else set (formulaRefs (raw cb)))"
    "set (dependents cb) =
       {a. a \<noteq> i \<and> (\<exists>ca. own s a = Some ca \<and> b \<in> set (formulaRefs (raw ca)))}"
    unfolding wellFormedBut_def by blast+
  have raws: "(\<exists>ca. own ?t a = Some ca \<and> b \<in> set (formulaRefs (raw ca))) \<longleftrightarrow>
              (\<exists>ca. own s a = Some ca \<and> b \<in> set (formulaRefs (raw ca)))" for a
    by (cases "own s a") (auto simp: own_fold_addEdge)
  define E where "E = {a. \<exists>ca. own s a = Some ca \<and> b \<in> set (formulaRefs (raw ca))}"
  have iE: "i \<in> E \<longleftrightarrow> b \<in> set ?rs" using i by (simp add: E_def)
  have "set (dependents cb) = E - {i}" unfolding w(4) E_def by blast
  then have "set (dependents cb') = E" using iE by (auto simp: f(3))
  then have d: "set (dependents cb') = {a. \<exists>ca. own ?t a = Some ca \<and> b \<in> set (formulaRefs (raw ca))}"
    unfolding raws E_def .
  have e: "set (dependencies cb') = set (formulaRefs (raw cb'))"
    using w(3) i cb by (auto simp: f)
  show "distinct (dependencies cb') \<and> distinct (dependents cb') \<and>
        set (dependencies cb') = set (formulaRefs (raw cb')) \<and>
        set (dependents cb') = {a. \<exists>ca. own ?t a = Some ca \<and> b \<in> set (formulaRefs (raw ca))}"
    using w(1,2) d e by (simp add: f)
qed

text \<open>The first evaluation of a call of \<^verbatim>\<open>setCell\<close> restores the edges of its cell.\<close>

lemma wellFormed_evaluate_prepared:
  assumes wb: "wellFormedBut i s" and i: "own s i = Some ci"
  shows "wellFormed (evaluateCell h s i {})"
proof (cases "startsWithEq (trim (raw ci))")
  case False
  then have "formulaRefs (raw ci) = []" by (rule formulaRefs_literal)
  with wellFormed_fold_addEdge [OF wb i] have "wellFormed s" by simp
  then show ?thesis by (rule wellFormed_evaluateCell)
next
  case True
  let ?refs = "matchRefs (trim (raw ci))"
  let ?s1 = "fold (addEdge i) ?refs s"
  have wf1: "wellFormed ?s1"
    using wellFormed_fold_addEdge [OF wb i] True by (simp add: formulaRefs_formula)
  have "shape (fst (fold (substStep h i {}) ?refs (?s1, tl (trim (raw ci))))) = shape ?s1"
  proof (rule fold_preserves [where Q = "\<lambda>a. shape (fst a) = shape ?s1"])
    fix r and a :: "Spreadsheet \<times> string"
    assume a: "shape (fst a) = shape ?s1"
    then have "wellFormed (fst a)" using wf1 wellFormed_shape by metis
    from shape_evaluateCell [OF this] a
    show "shape (fst (substStep h i {} r a)) = shape ?s1"
      by (simp add: substStep_def Let_def)
  qed simp
  then have "shape (evaluateCell h s i {}) = shape ?s1"
    using i True by (simp add: evaluateCell_formula Let_def)
  with wf1 show ?thesis using wellFormed_shape by metis
qed

lemma own_newSpreadsheet:
  assumes "own (newSpreadsheet c r) k = Some cell"
  shows "cell = newCell k"
proof -
  from assms have "(k, cell) \<in> set (cells (newSpreadsheet c r))"
    by (simp add: own_def map_of_SomeD)
  then show ?thesis by (auto simp: newSpreadsheet_def Let_def)
qed

lemma formulaRefs_empty [simp]: "formulaRefs [] = []"
  by (simp add: formulaRefs_def trim_def startsWithEq_def)

lemma wellFormed_newSpreadsheet: "wellFormed (newSpreadsheet c r)"
  unfolding wellFormed_def
  by (auto dest!: own_newSpreadsheet simp: newCell_def)

lemma setCell_wellFormed:
  assumes wf: "wellFormed s" and i: "own s i = Some cell"
  shows "\<exists>s'. setCell h s i v = Inr s' \<and> wellFormed s' \<and>
          shape s' = shape (evaluateCell h (prepared i v cell s) i {})"
proof -
  let ?p = "prepared i v cell s"
  obtain ci where ci: "own ?p i = Some ci" using i by (auto simp: own_prepared)
  have wf4: "wellFormed (evaluateCell h ?p i {})"
    using wellFormedBut_prepared [OF wf i] ci by (rule wellFormed_evaluate_prepared)
  have "own (evaluateCell h ?p i {}) i \<noteq> None"
    using ci by (metis keys_evaluateCell own_keys own_def keys_def map_of_eq_None_iff set_map)
  from updateDependents_wellFormed(1) [OF wf4 this] obtain s' V' where
    u: "updateDependents h (evaluateCell h ?p i {}) i {} = Inr (s', V')"
      "shape s' = shape (evaluateCell h ?p i {})" by blast
  then have "wellFormed s'" using wf4 wellFormed_shape by metis
  with u show ?thesis by (simp add: setCell_own [OF i])
qed

text \<open>
  The grids the program can reach: the constructor's, and the one every returning
  call of \<^verbatim>\<open>setCell\<close> leaves. (A call that throws has changed no cell.)
\<close>

inductive reachable :: "host \<Rightarrow> Spreadsheet \<Rightarrow> bool" for h :: host where
  constructed: "reachable h (newSpreadsheet c r)"
| set: "reachable h s \<Longrightarrow> setCell h s i v = Inr s' \<Longrightarrow> reachable h s'"

lemma reachable_wellFormed: "reachable h s \<Longrightarrow> wellFormed s"
proof (induction rule: reachable.induct)
  case (constructed c r)
  show ?case by (rule wellFormed_newSpreadsheet)
next
  case (set s i v s')
  show ?case
  proof (cases "own s i")
    case None
    with set show ?thesis by (auto simp: setCell_not_own split: if_splits)
  next
    case (Some cell)
    from setCell_wellFormed [OF set.IH Some, of h v] set.hyps(2) show ?thesis by auto
  qed
qed

lemma reachable_setCells:
  "reachable h s \<Longrightarrow> setCells h s script = Inr s' \<Longrightarrow> reachable h s'"
proof (induction script arbitrary: s)
  case Nil
  then show ?case by simp
next
  case (Cons p script)
  obtain i v where p: "p = (i, v)" by (cases p)
  from Cons.prems(2) obtain s1 where s1: "setCell h s i v = Inr s1" "setCells h s1 script = Inr s'"
    by (auto simp: p split: sum.splits)
  from Cons.prems(1) s1(1) have "reachable h s1" by (rule reachable.set)
  then show ?case using s1(2) by (rule Cons.IH)
qed

definition mutualEdges :: "Spreadsheet \<Rightarrow> bool" where
  "mutualEdges s =
     (\<forall>a b ca cb. own s a = Some ca \<longrightarrow> own s b = Some cb \<longrightarrow>
        (b \<in> set (dependencies ca) \<longleftrightarrow> a \<in> set (dependents cb)))"

lemma wellFormed_mutualEdges: "wellFormed s \<Longrightarrow> mutualEdges s"
  unfolding wellFormed_def mutualEdges_def by fastforce

section \<open>Texts under replacement\<close>

lemma isRowDigit_allowed: "isRowDigit c \<Longrightarrow> allowedChar c"
  by (auto simp: isRowDigit_def allowedChar_def isDigit_def)

lemma isColLetter_not_allowed: "isColLetter c \<Longrightarrow> \<not> allowedChar c"
  by (auto simp: isColLetter_def allowedChar_def isDigit_def isWhiteSpace_def)

lemma prefix_drop: "prefix pat t \<Longrightarrow> t = pat @ drop (length pat) t"
  by (auto simp: prefix_def)

text \<open>A character that is not in the pattern survives the replacement.\<close>

lemma replaceAll_keeps:
  "ch \<in> set e \<Longrightarrow> ch \<notin> set pat \<Longrightarrow> ch \<in> set (replaceAll pat rep e)"
proof (induction pat rep e rule: replaceAll.induct)
  case (1 pat rep)
  then show ?case by simp
next
  case (2 pat rep c cs)
  show ?case
  proof (cases "pat = []")
    case True
    with 2 show ?thesis by auto
  next
    case ne: False
    show ?thesis
    proof (cases "prefix pat (c # cs)")
      case True
      from prefix_drop [OF True] have "set (c # cs) = set pat \<union> set (drop (length pat) (c # cs))"
        by (metis set_append)
      with 2(4,5) have "ch \<in> set (drop (length pat) (c # cs))" by blast
      from 2(2) [OF ne True this 2(5)] show ?thesis using ne True by simp
    next
      case False
      with 2 ne show ?thesis by auto
    qed
  qed
qed

text \<open>Where the pattern occurs, the replacement text is put in.\<close>

lemma replaceAll_inserts:
  "pat \<noteq> [] \<Longrightarrow> e = pre @ pat @ post \<Longrightarrow> set rep \<subseteq> set (replaceAll pat rep e)"
proof (induction pat rep e arbitrary: pre rule: replaceAll.induct)
  case (1 pat rep)
  then show ?case by simp
next
  case (2 pat rep c cs)
  show ?case
  proof (cases "prefix pat (c # cs)")
    case True
    with 2(4) show ?thesis by simp
  next
    case False
    then have "pre \<noteq> []" using 2(5) by (cases pre) auto
    then obtain p pre' where pre: "pre = p # pre'" by (cases pre) auto
    with 2(5) have "cs = pre' @ pat @ post" by simp
    from 2(3) [OF 2(4) False 2(4) this] show ?thesis using 2(4) False by auto
  qed
qed

text \<open>
  Replacing a two-character pattern works on the two halves of a text separately,
  unless an occurrence straddles the cut.
\<close>

lemma replaceAll_single: "replaceAll [a, d] rep [x] = [x]"
  by simp

lemma replaceAll_append:
  "\<not> (xs \<noteq> [] \<and> last xs = a \<and> ys \<noteq> [] \<and> hd ys = d) \<Longrightarrow>
   replaceAll [a, d] rep (xs @ ys) = replaceAll [a, d] rep xs @ replaceAll [a, d] rep ys"
proof (induction xs rule: length_induct)
  case (1 xs)
  show ?case
  proof (cases xs)
    case Nil
    then show ?thesis by simp
  next
    case (Cons x xs1)
    show ?thesis
    proof (cases xs1)
      case Nil
      with Cons 1(2) show ?thesis by (cases ys) auto
    next
      case c2: (Cons y zs)
      show ?thesis
      proof (cases "x = a \<and> y = d")
        case True
        have "\<not> (zs \<noteq> [] \<and> last zs = a \<and> ys \<noteq> [] \<and> hd ys = d)"
          using 1(2) Cons c2 by auto
        moreover have "length zs < length xs" using Cons c2 by simp
        ultimately have "replaceAll [a, d] rep (zs @ ys) =
            replaceAll [a, d] rep zs @ replaceAll [a, d] rep ys"
          using 1(1) by blast
        with True Cons c2 show ?thesis by simp
      next
        case False
        have "\<not> (xs1 \<noteq> [] \<and> last xs1 = a \<and> ys \<noteq> [] \<and> hd ys = d)"
          using 1(2) Cons c2 by auto
        moreover have "length xs1 < length xs" using Cons by simp
        ultimately have "replaceAll [a, d] rep (xs1 @ ys) =
            replaceAll [a, d] rep xs1 @ replaceAll [a, d] rep ys"
          using 1(1) by blast
        with False Cons c2 show ?thesis by auto
      qed
    qed
  qed
qed

text \<open>
  A character the check of line 94 rejects and that is not the letter of a reference:
  no substitution removes it.
\<close>

definition freeBad :: "string \<Rightarrow> bool" where
  "freeBad e =
     (\<exists>pre ch post. e = pre @ ch # post \<and> \<not> allowedChar ch \<and>
        \<not> (isColLetter ch \<and> post \<noteq> [] \<and> isRowDigit (hd post)))"

lemma freeBad_invalid: "freeBad e \<Longrightarrow> \<not> validExpr e"
  by (auto simp: freeBad_def validExpr_def)

lemma hd_replaceAll:
  "post \<noteq> [] \<Longrightarrow> replaceAll [a, d] (CHR ''('' # m) post \<noteq> [] \<and>
     (hd (replaceAll [a, d] (CHR ''('' # m) post) = CHR ''('' \<or>
      hd (replaceAll [a, d] (CHR ''('' # m) post) = hd post)"
  by (cases post) auto

lemma freeBad_replaceAll:
  assumes "freeBad e" "isColLetter a" "isRowDigit d"
  shows "freeBad (replaceAll [a, d] (CHR ''('' # m) e)"
proof -
  let ?R = "replaceAll [a, d] (CHR ''('' # m)"
  from assms(1) obtain pre ch post where e: "e = pre @ ch # post" and
    bad: "\<not> allowedChar ch" and
    free: "\<not> (isColLetter ch \<and> post \<noteq> [] \<and> isRowDigit (hd post))"
    unfolding freeBad_def by blast
  have chd: "ch \<noteq> d" using bad assms(3) isRowDigit_allowed by blast
  then have 1: "?R e = ?R pre @ ?R (ch # post)"
    unfolding e by (intro replaceAll_append) simp
  have "\<not> prefix [a, d] (ch # post)"
    using free assms(2,3) by (cases post) auto
  then have 2: "?R (ch # post) = ch # ?R post" by auto
  have 3: "\<not> (isColLetter ch \<and> ?R post \<noteq> [] \<and> isRowDigit (hd (?R post)))"
  proof (cases "post = []")
    case True
    then show ?thesis by simp
  next
    case False
    have "\<not> isRowDigit CHR ''(''" by (simp add: isRowDigit_def)
    with hd_replaceAll [OF False, of a d m] free False show ?thesis by auto
  qed
  show ?thesis
    unfolding freeBad_def 1 2 using bad 3 by blast
qed

lemma allRefs_two: "r \<in> allRefs \<Longrightarrow> \<exists>a d. r = [a, d] \<and> isColLetter a \<and> isRowDigit d"
  by (auto simp: allRefs_def)

lemma snd_substStep:
  "snd (substStep h i V r acc) =
     replaceAll r (''('' @ toStr h (coerce h (refValue (fst (substStep h i V r acc)) r)) @ '')'')
       (snd acc)"
  by (simp add: substStep_def Let_def)

lemma fst_substStep: "fst (substStep h i V r acc) = evaluateCell h (fst acc) r (insert i V)"
  by (simp add: substStep_def Let_def)

lemma freeBad_fold_substStep:
  assumes "freeBad e" "set rs \<subseteq> allRefs"
  shows "freeBad (snd (fold (substStep h i V) rs (s, e)))"
proof -
  have "freeBad (snd (fold (substStep h i V) rs (s, e)))"
  proof (rule fold_preserves [where Q = "\<lambda>a. freeBad (snd a)"])
    fix r and a :: "Spreadsheet \<times> string"
    assume r: "r \<in> set rs" and a: "freeBad (snd a)"
    from r assms(2) allRefs_two obtain c d where "r = [c, d]" "isColLetter c" "isRowDigit d"
      by blast
    with a show "freeBad (snd (substStep h i V r a))"
      by (simp add: snd_substStep freeBad_replaceAll)
  qed (simp add: assms(1))
  then show ?thesis .
qed

section \<open>What the last completed evaluation of a cell leaves\<close>

text \<open>What lines 94 to 101 write into the cell, given the expression.\<close>

definition finishCell :: "host \<Rightarrow> string \<Rightarrow> Cell \<Rightarrow> Cell" where
  "finishCell h e c =
     (if \<not> validExpr e then c\<lparr>val := Str ''#ERR'', error := Some ''Invalid formula''\<rparr>
      else case run h e of
        Inl msg \<Rightarrow> c\<lparr>val := Str ''#ERR'', error := Some msg\<rparr>
      | Inr v \<Rightarrow> c\<lparr>val := v, error := None\<rparr>)"

lemma own_finish:
  "own (finish h i e s) k = (if k = i then map_option (finishCell h e) (own s k) else own s k)"
  by (cases "own s k") (auto simp: finish_def finishCell_def split: sum.splits)

lemma raw_finishCell [simp]: "raw (finishCell h e c) = raw c"
  by (simp add: finishCell_def split: sum.splits)

text \<open>
  \<open>settled good x rx V s\<close>: the cell \<open>x\<close> has the raw text \<open>rx\<close>, and unless \<open>x\<close> is
  being evaluated further up the stack (it is in \<open>V\<close>), its computed fields satisfy
  \<open>good\<close>.
\<close>

definition settled ::
  "(jsval \<Rightarrow> string option \<Rightarrow> bool) \<Rightarrow> string \<Rightarrow> string \<Rightarrow> string set \<Rightarrow> Spreadsheet \<Rightarrow> bool" where
  "settled good x rx V s =
     (\<exists>c. own s x = Some c \<and> raw c = rx \<and> (x \<in> V \<or> good (val c) (error c)))"

text \<open>
  If every completed evaluation of \<open>x\<close> writes good fields (\<open>Ex\<close> describes the
  expressions the substitution loop can produce from the formula of \<open>x\<close>), then
  \<^verbatim>\<open>_evaluateCell\<close> keeps \<open>x\<close> settled, and settles it when it is called on \<open>x\<close> itself.
\<close>

lemma evaluateCell_settles:
  fixes good :: "jsval \<Rightarrow> string option \<Rightarrow> bool" and Ex :: "string \<Rightarrow> bool"
  assumes lit: "\<not> startsWithEq (trim rx) \<Longrightarrow> good (literal h (trim rx)) None"
    and ex0: "startsWithEq (trim rx) \<Longrightarrow> Ex (tl (trim rx))"
    and exS: "\<And>e r t. Ex e \<Longrightarrow> r \<in> allRefs \<Longrightarrow> Ex (replaceAll r (''('' @ t @ '')'') e)"
    and fin: "\<And>e c. Ex e \<Longrightarrow> good (val (finishCell h e c)) (error (finishCell h e c))"
  shows "(\<exists>c. own s x = Some c \<and> raw c = rx \<and> (x \<in> V \<or> i = x \<or> good (val c) (error c))) \<Longrightarrow>
         settled good x rx V (evaluateCell h s i V)"
proof (induction s i V rule: evaluateCell_cases)
  case (absent s i V)
  then show ?case by (auto simp: evaluateCell_absent settled_def)
next
  case (circular s i V cell)
  then show ?case by (auto simp: evaluateCell_circular settled_def)
next
  case (literal s i V cell)
  then show ?case using lit by (auto simp: evaluateCell_literal settled_def)
next
  case (formula s i V cell)
  let ?refs = "matchRefs (trim (raw cell))"
  let ?s1 = "fold (addEdge i) ?refs s"
  let ?Q = "\<lambda>a. settled good x rx (insert i V) (fst a) \<and> (i = x \<longrightarrow> Ex (snd a))"
  from formula.prems obtain c where
    c: "own s x = Some c" "raw c = rx" "x \<in> V \<or> i = x \<or> good (val c) (error c)" by blast
  have q0: "?Q (?s1, tl (trim (raw cell)))"
  proof -
    have "settled good x rx (insert i V) ?s1"
      using c by (auto simp: settled_def own_fold_addEdge)
    moreover have "Ex (tl (trim (raw cell)))" if "i = x"
      using that c formula.hyps ex0 by simp
    ultimately show ?thesis by simp
  qed
  have q: "?Q (fold (substStep h i V) ?refs (?s1, tl (trim (raw cell))))"
  proof (rule fold_preserves [where Q = ?Q])
    fix r and a :: "Spreadsheet \<times> string"
    assume r: "r \<in> set ?refs" and a: "?Q a"
    have "settled good x rx (insert i V) (evaluateCell h (fst a) r (insert i V))"
      using a by (intro formula.IH [OF r]) (auto simp: settled_def)
    moreover have "Ex (snd (substStep h i V r a))" if "i = x"
      unfolding snd_substStep using a that r matchRefs_allRefs by (intro exS) auto
    ultimately show "?Q (substStep h i V r a)" by (simp add: fst_substStep)
  qed (rule q0)
  define acc where "acc = fold (substStep h i V) ?refs (?s1, tl (trim (raw cell)))"
  have ev: "evaluateCell h s i V = finish h i (snd acc) (fst acc)"
    using formula.hyps by (simp add: evaluateCell_formula Let_def acc_def)
  from q obtain c2 where
    c2: "own (fst acc) x = Some c2" "raw c2 = rx" "x \<in> insert i V \<or> good (val c2) (error c2)"
    and ex: "i = x \<longrightarrow> Ex (snd acc)"
    unfolding acc_def settled_def by blast
  show ?case
  proof (cases "i = x")
    case True
    with ex have "Ex (snd acc)" by simp
    from fin [OF this] show ?thesis
      unfolding ev settled_def using c2 True by (simp add: own_finish)
  next
    case False
    then show ?thesis
      unfolding ev settled_def using c2 by (auto simp: own_finish)
  qed
qed

text \<open>A property every top-level evaluation keeps is kept by the whole sweep.\<close>

lemma updateDependents_preserves_aux:
  "\<forall>s d. Q s \<longrightarrow> Q (evaluateCell h s d {}) \<Longrightarrow> Q s \<Longrightarrow>
     updateDependents h s i V = Inr (s', V') \<Longrightarrow> Q s'"
  "\<forall>s d. Q s \<longrightarrow> Q (evaluateCell h s d {}) \<Longrightarrow> Q s \<Longrightarrow>
     updateEach h ds s V = Inr (s', V') \<Longrightarrow> Q s'"
proof (induction h s i V and h ds s V arbitrary: s' V' and s' V'
       rule: updateDependents_updateEach.induct)
  case (1 h s i visited)
  then show ?case
    by (auto simp: updateDependents.simps split: if_splits option.splits)
next
  case (2 h s visited)
  then show ?case by simp
next
  case (3 h d ds s visited)
  from 3(5) obtain s1 V1 where
    a: "updateDependents h (evaluateCell h s d {}) d visited = Inr (s1, V1)" and
    b: "updateEach h ds s1 V1 = Inr (s', V')"
    by (auto split: sum.splits)
  have "Q (evaluateCell h s d {})" using 3(3,4) by blast
  from 3(1) [OF 3(3) this a] have "Q s1" .
  with 3(2) [OF a 3(3)] b show ?case by simp
qed

lemma updateDependents_preserves:
  assumes "\<And>s d. Q s \<Longrightarrow> Q (evaluateCell h s d {})"
    and "Q s" and "updateDependents h s i V = Inr (s', V')"
  shows "Q s'"
  using updateDependents_preserves_aux(1) [of Q h s i V s' V'] assms by blast

lemma setCell_settles:
  fixes good :: "jsval \<Rightarrow> string option \<Rightarrow> bool" and Ex :: "string \<Rightarrow> bool"
  assumes lit: "\<not> startsWithEq (trim v) \<Longrightarrow> good (literal h (trim v)) None"
    and ex0: "startsWithEq (trim v) \<Longrightarrow> Ex (tl (trim v))"
    and exS: "\<And>e r t. Ex e \<Longrightarrow> r \<in> allRefs \<Longrightarrow> Ex (replaceAll r (''('' @ t @ '')'') e)"
    and fin: "\<And>e c. Ex e \<Longrightarrow> good (val (finishCell h e c)) (error (finishCell h e c))"
    and wf: "wellFormed s" and i: "own s i \<noteq> None"
  shows "\<exists>s' c. setCell h s i v = Inr s' \<and> own s' i = Some c \<and> raw c = v \<and>
           good (val c) (error c)"
proof -
  from i obtain cell where cell: "own s i = Some cell" by auto
  let ?p = "prepared i v cell s"
  have "\<exists>c. own ?p i = Some c \<and> raw c = v \<and> (i \<in> {} \<or> i = i \<or> good (val c) (error c))"
    using cell by (simp add: own_prepared)
  from evaluateCell_settles [where rx = v and h = h and good = good and Ex = Ex, OF lit ex0 exS fin this]
  have s4: "settled good i v {} (evaluateCell h ?p i {})" by simp
  from setCell_wellFormed [OF wf cell, of h v] obtain s' where
    s': "setCell h s i v = Inr s'" by blast
  then obtain V' where u: "updateDependents h (evaluateCell h ?p i {}) i {} = Inr (s', V')"
    by (auto simp: setCell_own [OF cell] map_sum_def split: sum.splits)
  have "settled good i v {} s'"
  proof (rule updateDependents_preserves [where Q = "settled good i v {}", OF _ s4 u])
    fix t d assume "settled good i v {} t"
    then have "\<exists>c. own t i = Some c \<and> raw c = v \<and> (i \<in> {} \<or> d = i \<or> good (val c) (error c))"
      by (auto simp: settled_def)
    from evaluateCell_settles [where rx = v and h = h and good = good and Ex = Ex, OF lit ex0 exS fin this]
    show "settled good i v {} (evaluateCell h t d {})" by simp
  qed
  with s' show ?thesis by (auto simp: settled_def)
qed

lemma getCell_own: "own s i = Some c \<Longrightarrow> getCell s i = val c"
  by (simp add: getCell_def lookupCell_def)

lemma errorOf_own: "own s i = Some c \<Longrightarrow> errorOf s i = error c"
  by (simp add: errorOf_def)

text \<open>
  The expression line 94 checks when \<^verbatim>\<open>_evaluateCell\<close> runs on the formula cell \<open>i\<close>:
  the formula's body after the loop of lines 84 to 91.
\<close>

definition substituted :: "host \<Rightarrow> Spreadsheet \<Rightarrow> string \<Rightarrow> string set \<Rightarrow> string" where
  "substituted h s i V =
     (case own s i of
        None \<Rightarrow> []
      | Some cell \<Rightarrow>
          snd (fold (substStep h i V) (matchRefs (trim (raw cell)))
                 (fold (addEdge i) (matchRefs (trim (raw cell))) s, tl (trim (raw cell)))))"

lemma own_fold_substStep_exists:
  "own s k = Some c \<Longrightarrow> \<exists>c'. own (fst (fold (substStep h i V) rs (s, e))) k = Some c'"
proof -
  have "keys (fst (fold (substStep h i V) rs (s, e))) = keys s"
    by (rule fold_preserves [where Q = "\<lambda>a. keys (fst a) = keys s"])
       (simp_all add: fst_substStep)
  moreover assume "own s k = Some c"
  ultimately show ?thesis
    by (metis own_keys own_def keys_def map_of_eq_None_iff set_map not_Some_eq)
qed

lemma evaluateCell_formula_result:
  assumes "own s i = Some cell" "i \<notin> V" "startsWithEq (trim (raw cell))"
  shows "\<exists>c. own (evaluateCell h s i V) i = Some (finishCell h (substituted h s i V) c)"
proof -
  let ?refs = "matchRefs (trim (raw cell))"
  let ?acc = "fold (substStep h i V) ?refs (fold (addEdge i) ?refs s, tl (trim (raw cell)))"
  have "\<exists>c1. own (fold (addEdge i) ?refs s) i = Some c1"
    using assms(1) by (simp add: own_fold_addEdge)
  then obtain c1 c where "own (fst ?acc) i = Some c"
    using own_fold_substStep_exists by blast
  then show ?thesis
    using assms by (auto simp: evaluateCell_formula Let_def own_finish substituted_def)
qed

lemma invalid_formula_evaluateCell:
  assumes "own s i = Some cell" "i \<notin> V" "startsWithEq (trim (raw cell))"
    and "\<not> validExpr (substituted h s i V)"
  shows "getCell (evaluateCell h s i V) i = Str ''#ERR'' \<and>
         errorOf (evaluateCell h s i V) i = Some ''Invalid formula''"
proof -
  from evaluateCell_formula_result [OF assms(1-3)] obtain c where
    "own (evaluateCell h s i V) i = Some (finishCell h (substituted h s i V) c)" by blast
  then show ?thesis using assms(4) by (simp add: getCell_own errorOf_own finishCell_def)
qed

lemma invalid_formula_setCell:
  assumes "reachable h s" "own s i \<noteq> None" "startsWithEq (trim v)" "freeBad (tl (trim v))"
  shows "\<exists>s'. setCell h s i v = Inr s' \<and> getCell s' i = Str ''#ERR'' \<and>
           errorOf s' i = Some ''Invalid formula''"
proof -
  let ?good = "\<lambda>(x :: jsval) e. x = Str ''#ERR'' \<and> e = Some ''Invalid formula''"
  have "\<exists>s' c. setCell h s i v = Inr s' \<and> own s' i = Some c \<and> raw c = v \<and> ?good (val c) (error c)"
  proof (rule setCell_settles [where Ex = freeBad])
    show "freeBad (tl (trim v))" by (rule assms(4))
  next
    fix e r t assume "freeBad e" "r \<in> allRefs"
    then show "freeBad (replaceAll r (''('' @ t @ '')'') e)"
      using allRefs_two freeBad_replaceAll by fastforce
  next
    fix e c assume "freeBad e"
    then show "val (finishCell h e c) = Str ''#ERR'' \<and>
               error (finishCell h e c) = Some ''Invalid formula''"
      by (simp add: finishCell_def freeBad_invalid)
  next
    show "wellFormed s" using assms(1) by (rule reachable_wellFormed)
  qed (use assms in simp_all)
  then show ?thesis by (auto simp: getCell_own errorOf_own)
qed

lemma literal_setCell:
  assumes "reachable h s" "own s i \<noteq> None" "\<not> startsWithEq (trim v)"
  shows "\<exists>s'. setCell h s i v = Inr s' \<and> getCell s' i = literal h (trim v) \<and>
           errorOf s' i = None"
proof -
  let ?good = "\<lambda>(x :: jsval) (e :: string option). x = literal h (trim v) \<and> e = None"
  have "\<exists>s' c. setCell h s i v = Inr s' \<and> own s' i = Some c \<and> raw c = v \<and> ?good (val c) (error c)"
  proof (rule setCell_settles [where Ex = "\<lambda>_. False"])
    show "wellFormed s" using assms(1) by (rule reachable_wellFormed)
  qed (use assms in simp_all)
  then show ?thesis by (auto simp: getCell_own errorOf_own)
qed

section \<open>Non-finite values in a formula\<close>

definition occursIn :: "string \<Rightarrow> string \<Rightarrow> bool" where
  "occursIn r e = (\<exists>p q. e = p @ r @ q)"

lemma occursIn_replaceAll:
  assumes "occursIn [a, d] e" "isColLetter a" "isRowDigit d" "isColLetter a'" "isRowDigit d'"
    and ne: "[a, d] \<noteq> [a', d']"
  shows "occursIn [a, d] (replaceAll [a', d'] rep e)"
proof -
  let ?R = "replaceAll [a', d'] rep"
  from assms(1) obtain p q where e: "e = p @ [a] @ [d] @ q" by (auto simp: occursIn_def)
  have ad: "a \<noteq> d'" using assms(2,5) classes_disjoint by blast
  have da: "d \<noteq> a'" using assms(3,4) classes_disjoint by blast
  have 1: "?R (p @ [a] @ [d] @ q) = ?R p @ ?R ([a] @ [d] @ q)"
    using ad by (intro replaceAll_append) simp
  have 2: "?R ([a] @ [d] @ q) = ?R [a] @ ?R ([d] @ q)"
    using ne by (intro replaceAll_append) auto
  have 3: "?R ([d] @ q) = ?R [d] @ ?R q"
    using da by (intro replaceAll_append) simp
  have "?R e = ?R p @ [a, d] @ ?R q"
    unfolding e 1 2 3 by simp
  then show ?thesis unfolding occursIn_def by blast
qed

lemma matchRefs_occursIn_body:
  assumes "startsWithEq t" "r \<in> set (matchRefs t)"
  shows "occursIn r (tl t)"
proof -
  from assms(1) obtain body where t: "t = CHR ''='' # body"
    by (cases t) (auto simp: startsWithEq_def)
  from matchRefs_occurs [OF assms(2)] obtain p q where pq: "t = p @ r @ q" by blast
  from matchRefs_allRefs [OF assms(2)] allRefs_two obtain a d where
    r: "r = [a, d]" "isColLetter a" by blast
  have "a \<noteq> CHR ''=''" using r(2) by (auto simp: isColLetter_def)
  then have "p \<noteq> []" using t pq r by (cases p) auto
  then obtain p' where "p = CHR ''='' # p'" using t pq by (cases p) auto
  with t pq have "body = p' @ r @ q" by simp
  then show ?thesis using t by (auto simp: occursIn_def)
qed

lemma nonfinite_text:
  assumes "v \<in> {Num PosInf, Num NegInf, Num NaN}"
  shows "\<exists>ch \<in> set (toStr h (coerce h v)).
           \<not> allowedChar ch \<and> \<not> isColLetter ch \<and> \<not> isRowDigit ch"
proof -
  have "CHR ''N'' \<in> set (toStr h (coerce h v)) \<or> CHR ''I'' \<in> set (toStr h (coerce h v))"
    using assms by (auto simp: coerce_def toStr_def numToString_def)
  moreover have "\<not> allowedChar CHR ''N'' \<and> \<not> isColLetter CHR ''N'' \<and> \<not> isRowDigit CHR ''N''"
    by (simp add: allowedChar_def isColLetter_def isRowDigit_def isDigit_def isWhiteSpace_def)
  moreover have "\<not> allowedChar CHR ''I'' \<and> \<not> isColLetter CHR ''I'' \<and> \<not> isRowDigit CHR ''I''"
    by (simp add: allowedChar_def isColLetter_def isRowDigit_def isDigit_def isWhiteSpace_def)
  ultimately show ?thesis by blast
qed

section \<open>Natural numbers in the reference host\<close>

lemma digit_chars:
  fixes d :: nat
  assumes "d < 10"
  shows "isDigit (char_of (48 + d))" and "of_char (char_of (48 + d)) = 48 + d"
    and "char_of (48 + d) = CHR ''0'' \<longleftrightarrow> d = 0"
proof -
  have "\<forall>d \<in> set [0..<10 :: nat]. isDigit (char_of (48 + d)) \<and>
          of_char (char_of (48 + d)) = 48 + d \<and> (char_of (48 + d) = CHR ''0'' \<longleftrightarrow> d = 0)"
    by code_simp
  moreover have "d \<in> set [0..<10]" using assms by simp
  ultimately show "isDigit (char_of (48 + d))" "of_char (char_of (48 + d)) = 48 + d"
    "char_of (48 + d) = CHR ''0'' \<longleftrightarrow> d = 0" by blast+
qed

lemma decimal_nonempty: "decimal n \<noteq> []"
  by (subst decimal.simps) simp

lemma decimal_digits: "c \<in> set (decimal n) \<Longrightarrow> isDigit c"
proof (induction n arbitrary: c rule: decimal.induct)
  case (1 n)
  show ?case
  proof (cases "n < 10")
    case True
    then show ?thesis using 1(2) digit_chars(1) [of n] by (subst (asm) decimal.simps) simp
  next
    case False
    have "n mod 10 < 10" by simp
    then have "isDigit (char_of (48 + n mod 10))" by (rule digit_chars(1))
    then show ?thesis using False 1 by (subst (asm) (2) decimal.simps) auto
  qed
qed

lemma digitsVal_snoc: "digitsVal (ds @ [c]) = 10 * digitsVal ds + (of_char c - 48)"
  by (simp add: digitsVal_def)

lemma digitsVal_decimal: "digitsVal (decimal n) = n"
proof (induction n rule: decimal.induct)
  case (1 n)
  show ?case
  proof (cases "n < 10")
    case True
    then show ?thesis
      using digit_chars(2) [of n] by (subst decimal.simps) (simp add: digitsVal_def)
  next
    case False
    have "n mod 10 < 10" by simp
    then have "of_char (char_of (48 + n mod 10)) = 48 + n mod 10" by (rule digit_chars(2))
    then show ?thesis
      using False 1 by (subst decimal.simps) (simp add: digitsVal_snoc)
  qed
qed

lemma hd_decimal_zero: "hd (decimal n) = CHR ''0'' \<Longrightarrow> n = 0"
proof (induction n rule: decimal.induct)
  case (1 n)
  show ?case
  proof (cases "n < 10")
    case True
    then show ?thesis using 1(2) digit_chars(3) [of n] by (subst (asm) decimal.simps) simp
  next
    case False
    then have "hd (decimal n) = hd (decimal (n div 10))"
      by (subst decimal.simps) (simp add: decimal_nonempty)
    then have "n div 10 = 0" using 1 False by simp
    then show ?thesis using False by simp
  qed
qed

lemma decimal_no_leading_zero: "\<not> (length (decimal n) > 1 \<and> hd (decimal n) = CHR ''0'')"
proof
  assume a: "length (decimal n) > 1 \<and> hd (decimal n) = CHR ''0''"
  then have "n = 0" using hd_decimal_zero by blast
  moreover have "length (decimal 0) = 1" by code_simp
  ultimately show False using a by simp
qed

lemma finToStringRef_nat: "finToStringRef (of_nat n) = decimal n"
proof -
  have "quotient_of (of_nat n) = (int n, 1)"
    using quotient_of_int [of "int n"] by simp
  then show ?thesis by (simp add: finToStringRef_def Let_def)
qed

text \<open>A numeral followed by a closing parenthesis is one token.\<close>

lemma decimalLiteral_decimal:
  "decimalLiteral (decimal n @ CHR '')'' # rest) = (Inr (of_nat n), CHR '')'' # rest)"
proof -
  have nd: "\<not> isDigit CHR '')''" by (simp add: isDigit_def)
  have tw: "takeWhile isDigit (decimal n @ CHR '')'' # rest) = decimal n"
    using decimal_digits nd by (simp add: takeWhile_append2)
  have dw: "dropWhile isDigit (decimal n @ CHR '')'' # rest) = CHR '')'' # rest"
    using decimal_digits nd by (simp add: dropWhile_append2)
  show ?thesis
    using decimal_no_leading_zero [of n]
    by (simp add: decimalLiteral_def Let_def tw dw pointDigits_def afterPoint_def
        decimal_nonempty digitsVal_decimal)
qed

lemma tokens_decimal:
  "tokens (decimal n @ CHR '')'' # rest) =
     map_sum id ((#) (TNum (of_nat n))) (tokens (CHR '')'' # rest))"
proof -
  obtain c cs where d: "decimal n = c # cs" using decimal_nonempty by (cases "decimal n") auto
  then have c: "isDigit c" using decimal_digits [of c n] by simp
  then have "c \<noteq> CHR 0x0A" "c \<noteq> CHR 0x0D" "\<not> isWhiteSpace c"
    by (auto simp: isDigit_def isWhiteSpace_def)
  then have "tokens (c # cs @ CHR '')'' # rest) =
        (case decimalLiteral (c # cs @ CHR '')'' # rest) of
           (Inl e, _) \<Rightarrow> Inl e
         | (Inr q, rest) \<Rightarrow> map_sum id ((#) (TNum q)) (tokens rest))"
    using c by simp
  then show ?thesis using decimalLiteral_decimal [of n rest] by (simp add: d)
qed

text \<open>The four operators, as characters and on numbers.\<close>

definition isOperator :: "char \<Rightarrow> bool" where
  "isOperator c = (c \<in> set ''+-*/'')"

definition operatorToken :: "char \<Rightarrow> token" where
  "operatorToken c =
     (if c = CHR ''+'' then TPlus else if c = CHR ''-'' then TMinus
      else if c = CHR ''*'' then TStar else TSlash)"

lemma not_space_or_digit:
  "\<not> isWhiteSpace CHR ''(''" "\<not> isDigit CHR ''(''"
  "\<not> isWhiteSpace CHR '')''" "\<not> isDigit CHR '')''"
  "\<not> isWhiteSpace CHR ''+''" "\<not> isDigit CHR ''+''"
  "\<not> isWhiteSpace CHR ''-''" "\<not> isDigit CHR ''-''"
  "\<not> isWhiteSpace CHR ''*''" "\<not> isDigit CHR ''*''"
  "\<not> isWhiteSpace CHR ''/''" "\<not> isDigit CHR ''/''"
  by code_simp+

lemma tokens_lparen: "tokens (CHR ''('' # cs) = map_sum id ((#) TLParen) (tokens cs)"
  by (simp add: not_space_or_digit)

lemma tokens_rparen: "tokens (CHR '')'' # cs) = map_sum id ((#) TRParen) (tokens cs)"
  by (simp add: not_space_or_digit)

lemma tokens_operator:
  assumes "isOperator c"
  shows "tokens (c # CHR ''('' # cs) = map_sum id ((#) (operatorToken c)) (tokens (CHR ''('' # cs))"
proof -
  consider "c = CHR ''+''" | "c = CHR ''-''" | "c = CHR ''*''" | "c = CHR ''/''"
    using assms by (auto simp: isOperator_def)
  then show ?thesis
    by cases (simp_all add: not_space_or_digit operatorToken_def)
qed

lemma tokens_parenthesised:
  assumes "isOperator o1" "isOperator o2"
  shows "tokens (''('' @ decimal x @ '')'' @ [o1] @ ''('' @ decimal y @ '')'' @ [o2] @
                 ''('' @ decimal z @ '')'') =
         Inr [TLParen, TNum (of_nat x), TRParen, operatorToken o1,
              TLParen, TNum (of_nat y), TRParen, operatorToken o2,
              TLParen, TNum (of_nat z), TRParen]"
proof -
  have "tokens (CHR ''('' # decimal x @ CHR '')'' # o1 # CHR ''('' # decimal y @
          CHR '')'' # o2 # CHR ''('' # decimal z @ CHR '')'' # []) =
        Inr [TLParen, TNum (of_nat x), TRParen, operatorToken o1,
              TLParen, TNum (of_nat y), TRParen, operatorToken o2,
              TLParen, TNum (of_nat z), TRParen]"
    unfolding tokens_lparen tokens_decimal tokens_rparen
      tokens_operator [OF assms(1)] tokens_operator [OF assms(2)]
    by simp
  then show ?thesis by simp
qed

text \<open>What the engine computes with one operator.\<close>

definition applyOperator :: "char \<Rightarrow> jsnum \<Rightarrow> jsnum \<Rightarrow> jsnum" where
  "applyOperator c a b =
     (if c = CHR ''+'' then addN a b else if c = CHR ''-'' then addN a (negN b)
      else if c = CHR ''*'' then mulN a b else divN a b)"

definition tighter :: "char \<Rightarrow> bool" where
  "tighter c = (c = CHR ''*'' \<or> c = CHR ''/'')"

lemma shunt_parenthesised:
  assumes "isOperator o1" "isOperator o2"
  shows "shunt [TLParen, TNum a, TRParen, operatorToken o1,
              TLParen, TNum b, TRParen, operatorToken o2,
              TLParen, TNum c, TRParen] True [] [] =
         Inr (if tighter o2 \<and> \<not> tighter o1
              then applyOperator o1 (Fin a) (applyOperator o2 (Fin b) (Fin c))
              else applyOperator o2 (applyOperator o1 (Fin a) (Fin b)) (Fin c))"
proof -
  consider "o1 = CHR ''+''" | "o1 = CHR ''-''" | "o1 = CHR ''*''" | "o1 = CHR ''/''"
    using assms(1) by (auto simp: isOperator_def)
  then show ?thesis
  proof cases
    case 1
    consider "o2 = CHR ''+''" | "o2 = CHR ''-''" | "o2 = CHR ''*''" | "o2 = CHR ''/''"
      using assms(2) by (auto simp: isOperator_def)
    then show ?thesis
      by cases (simp_all add: 1 operatorToken_def applyOperator_def tighter_def)
  next
    case 2
    consider "o2 = CHR ''+''" | "o2 = CHR ''-''" | "o2 = CHR ''*''" | "o2 = CHR ''/''"
      using assms(2) by (auto simp: isOperator_def)
    then show ?thesis
      by cases (simp_all add: 2 operatorToken_def applyOperator_def tighter_def)
  next
    case 3
    consider "o2 = CHR ''+''" | "o2 = CHR ''-''" | "o2 = CHR ''*''" | "o2 = CHR ''/''"
      using assms(2) by (auto simp: isOperator_def)
    then show ?thesis
      by cases (simp_all add: 3 operatorToken_def applyOperator_def tighter_def)
  next
    case 4
    consider "o2 = CHR ''+''" | "o2 = CHR ''-''" | "o2 = CHR ''*''" | "o2 = CHR ''/''"
      using assms(2) by (auto simp: isOperator_def)
    then show ?thesis
      by cases (simp_all add: 4 operatorToken_def applyOperator_def tighter_def)
  qed
qed

text \<open>
  The reference host on two operators between three parenthesised numerals: the
  operator that binds tighter is applied first, the left one when neither does.
\<close>

lemma runRef_parenthesised:
  assumes "isOperator o1" "isOperator o2"
  shows "runRef (''('' @ decimal x @ '')'' @ [o1] @ ''('' @ decimal y @ '')'' @ [o2] @
                 ''('' @ decimal z @ '')'') =
         Inr (Num (if tighter o2 \<and> \<not> tighter o1
              then applyOperator o1 (Fin (of_nat x)) (applyOperator o2 (Fin (of_nat y)) (Fin (of_nat z)))
              else applyOperator o2 (applyOperator o1 (Fin (of_nat x)) (Fin (of_nat y))) (Fin (of_nat z))))"
proof -
  have "runRef (''('' @ decimal x @ '')'' @ [o1] @ ''('' @ decimal y @ '')'' @ [o2] @
                 ''('' @ decimal z @ '')'') =
        map_sum id Num (shunt [TLParen, TNum (of_nat x), TRParen, operatorToken o1,
              TLParen, TNum (of_nat y), TRParen, operatorToken o2,
              TLParen, TNum (of_nat z), TRParen] True [] [])"
    unfolding runRef_def tokens_parenthesised [OF assms] by (simp only: sum.case)
  then show ?thesis unfolding shunt_parenthesised [OF assms] by simp
qed

section \<open>Two runs on grids of the same shape\<close>

text \<open>The computed fields of a cell.\<close>

definition computed :: "Spreadsheet \<Rightarrow> string \<Rightarrow> (jsval \<times> string option) option" where
  "computed s k = map_option (\<lambda>c. (val c, error c)) (own s k)"

text \<open>
  \<open>stepped t t' u u'\<close>: the pair \<open>(u, u')\<close> comes from the pair \<open>(t, t')\<close> by the same
  writes of computed fields: the shapes are kept, and every cell either holds the same
  computed fields in \<open>u\<close> and \<open>u'\<close>, or is in both as it was.
\<close>

definition written :: "Spreadsheet \<Rightarrow> Spreadsheet \<Rightarrow> Spreadsheet \<Rightarrow> Spreadsheet \<Rightarrow> bool" where
  "written t t' u u' =
     (\<forall>k. computed u k = computed u' k \<or>
          (computed u k = computed t k \<and> computed u' k = computed t' k))"

definition stepped :: "Spreadsheet \<Rightarrow> Spreadsheet \<Rightarrow> Spreadsheet \<Rightarrow> Spreadsheet \<Rightarrow> bool" where
  "stepped t t' u u' = (shape u = shape t \<and> shape u' = shape t' \<and> written t t' u u')"

lemma written_refl: "written t t' t t'"
  by (simp add: written_def)

lemma written_trans: "written t t' u u' \<Longrightarrow> written u u' w w' \<Longrightarrow> written t t' w w'"
  unfolding written_def by (metis (no_types, lifting))

lemma written_equal: "written t t' u u' \<Longrightarrow> computed t k = computed t' k \<Longrightarrow>
    computed u k = computed u' k"
  unfolding written_def by metis

lemma written_origin:
  "computed t = computed s \<Longrightarrow> computed t' = computed s' \<Longrightarrow> written t t' u u' \<Longrightarrow>
     written s s' u u'"
  by (simp add: written_def)

lemma stepped_refl: "stepped t t' t t'"
  by (simp add: stepped_def written_refl)

lemma stepped_trans: "stepped t t' u u' \<Longrightarrow> stepped u u' w w' \<Longrightarrow> stepped t t' w w'"
  unfolding stepped_def using written_trans by auto

lemma stepped_equal: "stepped t t' u u' \<Longrightarrow> computed t k = computed t' k \<Longrightarrow>
    computed u k = computed u' k"
  unfolding stepped_def using written_equal by blast

lemma fold2_preserves:
  "(\<And>x a b. x \<in> set xs \<Longrightarrow> Q a b \<Longrightarrow> Q (f x a) (g x b)) \<Longrightarrow> Q a b \<Longrightarrow>
     Q (fold f xs a) (fold g xs b)"
  by (induction xs arbitrary: a b) auto

lemma computed_modify:
  "computed (modify i f s) k =
     (if k = i then map_option (\<lambda>c. (val (f c), error (f c))) (own s k) else computed s k)"
  by (cases "own s k") (auto simp: computed_def)

lemma computed_own: "own s = own t \<Longrightarrow> computed s = computed t"
  by (rule ext) (simp add: computed_def)

lemma computed_finish:
  "computed (finish h i e s) k =
     (if k = i then map_option (\<lambda>c. (val (finishCell h e c), error (finishCell h e c))) (own s k)
      else computed s k)"
  by (cases "own s k") (auto simp: computed_def own_finish)

lemma finishCell_fields:
  "val (finishCell h e c) = val (finishCell h e d) \<and> error (finishCell h e c) = error (finishCell h e d)"
  by (simp add: finishCell_def split: sum.splits)

lemma refValue_computed: "computed s r = computed t r \<Longrightarrow> refValue s r = refValue t r"
  by (cases "own s r"; cases "own t r") (auto simp: computed_def refValue_def)

lemma shape_own_Some:
  "shape t = shape t' \<Longrightarrow> own t i = Some c \<Longrightarrow> \<exists>c'. own t' i = Some c' \<and> raw c' = raw c"
  using shape_fields by metis

lemma shape_own_None: "shape t = shape t' \<Longrightarrow> own t i = None \<Longrightarrow> own t' i = None"
  using own_None_shape by metis

lemma shape_modify_fields:
  "shape (modify i (\<lambda>c. c\<lparr>val := x, error := e\<rparr>) s) = shape s"
  by (rule shape_modify_computed) (simp add: erase_def)

text \<open>
  The frame of a formula cell in two runs, from the point where its edges are in
  (after line 81), given that the evaluations of its references behave alike.
\<close>

lemma formula_frame_two_runs:
  assumes i: "own t i = Some cell" "i \<notin> V" "startsWithEq (trim (raw cell))"
    and i': "own t' i = Some cell'" "raw cell' = raw cell"
    and wf1: "wellFormed (fold (addEdge i) (matchRefs (trim (raw cell))) t)"
    and sh1: "shape (fold (addEdge i) (matchRefs (trim (raw cell))) t) =
              shape (fold (addEdge i) (matchRefs (trim (raw cell))) t')"
    and H: "\<And>r a b. r \<in> set (matchRefs (trim (raw cell))) \<Longrightarrow> wellFormed a \<Longrightarrow>
              shape a = shape b \<Longrightarrow>
              stepped a b (evaluateCell h a r (insert i V)) (evaluateCell h b r (insert i V)) \<and>
              computed (evaluateCell h a r (insert i V)) r =
              computed (evaluateCell h b r (insert i V)) r"
  shows "stepped (fold (addEdge i) (matchRefs (trim (raw cell))) t)
           (fold (addEdge i) (matchRefs (trim (raw cell))) t')
           (evaluateCell h t i V) (evaluateCell h t' i V) \<and>
         computed (evaluateCell h t i V) i = computed (evaluateCell h t' i V) i"
proof -
  let ?refs = "matchRefs (trim (raw cell))"
  let ?body = "tl (trim (raw cell))"
  let ?s1 = "fold (addEdge i) ?refs t"
  let ?s1' = "fold (addEdge i) ?refs t'"
  let ?Q = "\<lambda>(a :: Spreadsheet \<times> string) (b :: Spreadsheet \<times> string).
              stepped ?s1 ?s1' (fst a) (fst b) \<and> snd a = snd b"
  have q0: "?Q (?s1, ?body) (?s1', ?body)" by (simp add: stepped_refl)
  have q: "?Q (fold (substStep h i V) ?refs (?s1, ?body))
              (fold (substStep h i V) ?refs (?s1', ?body))"
  proof (rule fold2_preserves [where Q = ?Q])
    fix r and a b :: "Spreadsheet \<times> string"
    assume r: "r \<in> set ?refs" and ab: "?Q a b"
    then have sh: "shape (fst a) = shape ?s1" "shape (fst b) = shape ?s1'"
      by (simp_all add: stepped_def)
    then have wfa: "wellFormed (fst a)" using wf1 wellFormed_shape by metis
    have "shape (fst a) = shape (fst b)" using sh sh1 by simp
    from H [OF r wfa this] have
      st: "stepped (fst a) (fst b) (evaluateCell h (fst a) r (insert i V))
             (evaluateCell h (fst b) r (insert i V))" and
      eq: "computed (evaluateCell h (fst a) r (insert i V)) r =
           computed (evaluateCell h (fst b) r (insert i V)) r" by simp_all
    have "stepped ?s1 ?s1' (fst (substStep h i V r a)) (fst (substStep h i V r b))"
      using ab st stepped_trans by (simp add: fst_substStep) blast
    moreover have "snd (substStep h i V r a) = snd (substStep h i V r b)"
      using ab refValue_computed [OF eq] by (simp add: snd_substStep fst_substStep)
    ultimately show "?Q (substStep h i V r a) (substStep h i V r b)" by simp
  qed (rule q0)
  define acc where "acc = fold (substStep h i V) ?refs (?s1, ?body)"
  define acc' where "acc' = fold (substStep h i V) ?refs (?s1', ?body)"
  have ev: "evaluateCell h t i V = finish h i (snd acc) (fst acc)"
    using i by (simp add: evaluateCell_formula Let_def acc_def)
  have ev': "evaluateCell h t' i V = finish h i (snd acc) (fst acc')"
    using i i' q by (simp add: evaluateCell_formula Let_def acc_def acc'_def)
  from q have st: "stepped ?s1 ?s1' (fst acc) (fst acc')" by (simp add: acc_def acc'_def)
  have "own ?s1 i \<noteq> None" "own ?s1' i \<noteq> None"
    using i(1) i'(1) by (simp_all add: own_fold_addEdge)
  then have ex: "own (fst acc) i \<noteq> None" "own (fst acc') i \<noteq> None"
    using st unfolding stepped_def by (metis shape_None)+
  have ci: "computed (finish h i (snd acc) (fst acc)) i = computed (finish h i (snd acc) (fst acc')) i"
    using ex finishCell_fields by (auto simp: computed_finish)
  have "written ?s1 ?s1' (finish h i (snd acc) (fst acc)) (finish h i (snd acc) (fst acc'))"
    unfolding written_def
  proof
    fix k
    show "computed (finish h i (snd acc) (fst acc)) k =
          computed (finish h i (snd acc) (fst acc')) k \<or>
          (computed (finish h i (snd acc) (fst acc)) k = computed ?s1 k \<and>
           computed (finish h i (snd acc) (fst acc')) k = computed ?s1' k)"
    proof (cases "k = i")
      case True
      with ci show ?thesis by simp
    next
      case False
      then show ?thesis using st by (simp add: computed_finish stepped_def written_def)
    qed
  qed
  then have "stepped ?s1 ?s1' (finish h i (snd acc) (fst acc)) (finish h i (snd acc) (fst acc'))"
    using st by (simp add: stepped_def)
  with ci show ?thesis by (simp add: ev ev')
qed

lemma stepped_own:
  "own t = own s \<Longrightarrow> own t' = own s' \<Longrightarrow> stepped t t' u u' \<Longrightarrow> stepped s s' u u'"
  using shape_own [of t s] shape_own [of t' s'] computed_own [of t s] computed_own [of t' s']
  by (simp add: stepped_def written_def)

text \<open>
  Two runs of \<^verbatim>\<open>_evaluateCell\<close> on well-formed grids of the same shape make the same
  writes: what it computes depends on the raw texts only, never on computed fields
  that were there before.
\<close>

lemma evaluateCell_two_runs:
  "wellFormed t \<Longrightarrow> shape t = shape t' \<Longrightarrow>
     stepped t t' (evaluateCell h t i V) (evaluateCell h t' i V) \<and>
     computed (evaluateCell h t i V) i = computed (evaluateCell h t' i V) i"
proof (induction t i V arbitrary: t' rule: evaluateCell_cases)
  case (absent s i V)
  then have "own t' i = None" using shape_own_None by blast
  with absent show ?case
    by (simp add: evaluateCell_absent stepped_refl computed_def)
next
  case (circular s i V cell)
  then obtain cell' where c': "own t' i = Some cell'" using shape_own_Some by blast
  show ?case
    using circular c'
    by (simp add: evaluateCell_circular stepped_def written_def shape_modify_fields
        computed_modify)
next
  case (literal s i V cell)
  then obtain cell' where c': "own t' i = Some cell'" "raw cell' = raw cell"
    using shape_own_Some by blast
  show ?case
    using literal c'
    by (simp add: evaluateCell_literal stepped_def written_def shape_modify_fields
        computed_modify)
next
  case (formula s i V cell)
  then obtain cell' where c': "own t' i = Some cell'" "raw cell' = raw cell"
    using shape_own_Some by blast
  have wf': "wellFormed t'" using formula.prems wellFormed_shape by blast
  let ?refs = "matchRefs (trim (raw cell))"
  have o1: "own (fold (addEdge i) ?refs s) = own s"
    using formula by (intro own_fold_addEdge_wellFormed) (auto simp: formulaRefs_formula)
  have o1': "own (fold (addEdge i) ?refs t') = own t'"
    using formula c' wf' by (intro own_fold_addEdge_wellFormed) (auto simp: formulaRefs_formula)
  have "stepped (fold (addEdge i) ?refs s) (fold (addEdge i) ?refs t')
           (evaluateCell h s i V) (evaluateCell h t' i V) \<and>
         computed (evaluateCell h s i V) i = computed (evaluateCell h t' i V) i"
  proof (rule formula_frame_two_runs [OF formula.hyps c'])
    show "wellFormed (fold (addEdge i) ?refs s)"
      using formula.prems(1) wellFormed_own [OF o1 [symmetric]] by blast
    show "shape (fold (addEdge i) ?refs s) = shape (fold (addEdge i) ?refs t')"
      using formula.prems(2) by (simp add: shape_own [OF o1] shape_own [OF o1'])
  qed (use formula.IH in blast)
  then show ?case using stepped_own [OF o1 o1'] by blast
qed

lemma own_None_keys: "own s k = None \<longleftrightarrow> k \<notin> set (keys s)"
  by (simp add: own_def keys_def map_of_eq_None_iff)

lemma own_evaluateCell_None: "own (evaluateCell h s i V) k = None \<longleftrightarrow> own s k = None"
  by (simp add: own_None_keys)

text \<open>The sweep visits the same cells in the same order in two such runs.\<close>

lemma updateDependents_two_runs:
  "wellFormed t \<Longrightarrow> shape t = shape t' \<Longrightarrow> own t i \<noteq> None \<Longrightarrow>
     \<exists>u u' W. updateDependents h t i V = Inr (u, W) \<and> updateDependents h t' i V = Inr (u', W) \<and>
       stepped t t' u u'"
  "wellFormed t \<Longrightarrow> shape t = shape t' \<Longrightarrow> \<forall>d \<in> set ds. own t d \<noteq> None \<Longrightarrow>
     \<exists>u u' W. updateEach h ds t V = Inr (u, W) \<and> updateEach h ds t' V = Inr (u', W) \<and>
       stepped t t' u u'"
proof (induction h t i V and h ds t V arbitrary: t' and t'
       rule: updateDependents_updateEach.induct)
  case (1 h s i visited)
  show ?case
  proof (cases "i \<in> visited")
    case True
    then show ?thesis by (simp add: updateDependents.simps stepped_refl)
  next
    case False
    from 1(4) obtain cell where cell: "own s i = Some cell" by auto
    from shape_fields [OF 1(3) cell] obtain cell' where
      cell': "own t' i = Some cell'" "dependents cell' = dependents cell" by metis
    have "\<forall>d \<in> set (dependents cell). own s d \<noteq> None"
      using 1(2) cell unfolding wellFormed_def by fastforce
    from 1(1) [OF False cell 1(2,3) this] show ?thesis
      using False cell cell' by (simp add: updateDependents.simps)
  qed
next
  case (2 h s visited)
  then show ?case by (simp add: stepped_refl)
next
  case (3 h d ds s visited)
  let ?t1 = "evaluateCell h s d {}"
  let ?t1' = "evaluateCell h t' d {}"
  from evaluateCell_two_runs [OF 3(3,4)] have st1: "stepped s t' ?t1 ?t1'" by blast
  then have sh: "shape ?t1 = shape s" "shape ?t1' = shape t'" by (simp_all add: stepped_def)
  have wf1: "wellFormed ?t1" using 3(3) by (rule wellFormed_evaluateCell)
  have sh1: "shape ?t1 = shape ?t1'" using sh 3(4) by simp
  have "own ?t1 d \<noteq> None" using 3(5) own_None_shape [OF sh(1)] by simp
  from 3(1) [OF wf1 sh1 this] obtain u1 u1' W1 where
    a: "updateDependents h ?t1 d visited = Inr (u1, W1)" and
    a': "updateDependents h ?t1' d visited = Inr (u1', W1)" and
    st2: "stepped ?t1 ?t1' u1 u1'" by blast
  from st2 have sh2: "shape u1 = shape ?t1" "shape u1' = shape ?t1'" by (simp_all add: stepped_def)
  have wf2: "wellFormed u1" using wf1 sh2(1) wellFormed_shape by metis
  have sh3: "shape u1 = shape u1'" using sh2 sh1 by simp
  have "\<forall>d \<in> set ds. own u1 d \<noteq> None"
    using 3(5) own_None_shape [OF sh(1)] own_None_shape [OF sh2(1)] by simp
  with 3(2) [OF a] wf2 sh3 obtain u u' W where
    b: "updateEach h ds u1 W1 = Inr (u, W)" and b': "updateEach h ds u1' W1 = Inr (u', W)" and
    st3: "stepped u1 u1' u u'" by fastforce
  have "stepped s t' u u'" using st1 st2 st3 stepped_trans by blast
  with a a' b b' show ?case by simp
qed

lemma computed_fold_addEdge: "computed (fold (addEdge i) rs s) = computed s"
proof
  fix k show "computed (fold (addEdge i) rs s) k = computed s k"
    by (cases "own s k") (simp_all add: computed_def own_fold_addEdge)
qed

lemma computed_prepared: "k \<noteq> i \<Longrightarrow> computed (prepared i v cell s) k = computed s k"
  by (cases "own s k") (simp_all add: computed_def own_prepared)

lemma shape_fold_addEdge_cong:
  assumes "shape p = shape p'"
  shows "shape (fold (addEdge i) rs p) = shape (fold (addEdge i) rs p')"
proof
  fix k
  show "shape (fold (addEdge i) rs p) k = shape (fold (addEdge i) rs p') k"
  proof (cases "own p k")
    case None
    then have "own p' k = None" using assms shape_own_None by blast
    with None show ?thesis by (simp add: shape_def own_fold_addEdge)
  next
    case (Some c)
    from shape_fields [OF assms Some] obtain c' where
      c': "own p' k = Some c'" "raw c' = raw c" "dependencies c' = dependencies c"
        "dependents c' = dependents c" by metis
    have "erase c = erase c'"
      using assms Some c'(1) by (metis shape_def option.simps(9) option.inject)
    then show ?thesis
      using Some c' by (simp add: shape_def own_fold_addEdge erase_eq)
  qed
qed

lemma shape_evaluate_prepared:
  assumes wb: "wellFormedBut i s" and i: "own s i = Some ci"
  shows "shape (evaluateCell h s i {}) = shape (fold (addEdge i) (formulaRefs (raw ci)) s)"
proof (cases "startsWithEq (trim (raw ci))")
  case False
  then show ?thesis
    using i by (simp add: formulaRefs_literal evaluateCell_literal shape_modify_fields)
next
  case True
  let ?refs = "matchRefs (trim (raw ci))"
  let ?s1 = "fold (addEdge i) ?refs s"
  have wf1: "wellFormed ?s1"
    using wellFormed_fold_addEdge [OF wb i] True by (simp add: formulaRefs_formula)
  have "shape (fst (fold (substStep h i {}) ?refs (?s1, tl (trim (raw ci))))) = shape ?s1"
  proof (rule fold_preserves [where Q = "\<lambda>a. shape (fst a) = shape ?s1"])
    fix r and a :: "Spreadsheet \<times> string"
    assume a: "shape (fst a) = shape ?s1"
    then have "wellFormed (fst a)" using wf1 wellFormed_shape by metis
    from shape_evaluateCell [OF this] a
    show "shape (fst (substStep h i {} r a)) = shape ?s1"
      by (simp add: substStep_def Let_def)
  qed simp
  then show ?thesis
    using i True by (simp add: evaluateCell_formula Let_def formulaRefs_formula)
qed

text \<open>The first evaluation of \<^verbatim>\<open>setCell\<close>, in two runs.\<close>

lemma evaluate_prepared_two_runs:
  assumes wb: "wellFormedBut i p" and sh: "shape p = shape p'" and i: "own p i = Some ci"
  shows "written p p' (evaluateCell h p i {}) (evaluateCell h p' i {}) \<and>
         computed (evaluateCell h p i {}) i = computed (evaluateCell h p' i {}) i \<and>
         shape (evaluateCell h p i {}) = shape (evaluateCell h p' i {})"
proof -
  from shape_own_Some [OF sh i] obtain ci' where i': "own p' i = Some ci'" "raw ci' = raw ci"
    by blast
  show ?thesis
  proof (cases "startsWithEq (trim (raw ci))")
    case False
    then show ?thesis
      using i i' sh
      by (simp add: evaluateCell_literal written_def shape_modify_fields computed_modify)
  next
    case True
    let ?refs = "matchRefs (trim (raw ci))"
    let ?q = "fold (addEdge i) ?refs p"
    let ?q' = "fold (addEdge i) ?refs p'"
    have wfq: "wellFormed ?q"
      using wellFormed_fold_addEdge [OF wb i] True by (simp add: formulaRefs_formula)
    have shq: "shape ?q = shape ?q'" using sh by (rule shape_fold_addEdge_cong)
    have "stepped ?q ?q' (evaluateCell h p i {}) (evaluateCell h p' i {}) \<and>
          computed (evaluateCell h p i {}) i = computed (evaluateCell h p' i {}) i"
      by (rule formula_frame_two_runs [OF i _ True i' wfq shq])
         (simp_all add: evaluateCell_two_runs)
    then show ?thesis
      using shq written_origin [OF computed_fold_addEdge computed_fold_addEdge]
      by (auto simp: stepped_def)
  qed
qed

lemma removeAll_setAdd: "i \<notin> set l \<Longrightarrow> removeAll i (setAdd i l) = l"
  by (simp add: setAdd_def)

text \<open>
  Calling \<^verbatim>\<open>setCell\<close> again with the same text: lines 36 to 40 take out exactly the
  edges the first call put in, each set getting back the order it had.
\<close>

lemma shape_prepared_again:
  assumes wb: "wellFormedBut i p" and pi: "own p i = Some ci" "raw ci = v"
    and sh: "shape r1 = shape (fold (addEdge i) (formulaRefs v) p)"
    and c1: "own r1 i = Some cell1"
  shows "shape (prepared i v cell1 r1) = shape p"
proof
  let ?refs = "formulaRefs v"
  let ?q = "fold (addEdge i) ?refs p"
  from wb pi(1) have di: "dependencies ci = []"
    unfolding wellFormedBut_def by fastforce
  from shape_fields [OF sh c1] obtain qi where
    "own ?q i = Some qi" "dependencies qi = dependencies cell1" by metis
  then have "dependencies cell1 = fold setAdd ?refs []"
    using pi(1) di by (auto simp: own_fold_addEdge)
  then have d1: "set (dependencies cell1) = set ?refs" by simp
  fix k
  show "shape (prepared i v cell1 r1) k = shape p k"
  proof (cases "own p k")
    case None
    then have "own ?q k = None" by (simp add: own_fold_addEdge)
    then have "own r1 k = None" using sh shape_own_None by metis
    with None show ?thesis by (simp add: shape_def own_prepared)
  next
    case (Some c0)
    from wb Some have ni: "i \<notin> set (dependents c0)"
      unfolding wellFormedBut_def by fastforce
    let ?A = "c0\<lparr>dependencies := if k = i then fold setAdd ?refs (dependencies c0)
                                 else dependencies c0,
                 dependents := if k \<in> set ?refs then setAdd i (dependents c0)
                               else dependents c0\<rparr>"
    have q: "own ?q k = Some ?A" using Some by (simp add: own_fold_addEdge)
    from shape_fields [OF sh [symmetric] q] obtain c1k where
      c1k: "own r1 k = Some c1k" "raw c1k = raw ?A" "dependencies c1k = dependencies ?A"
        "dependents c1k = dependents ?A" by metis
    have "erase c1k = erase ?A"
      using sh q c1k(1) by (metis shape_def option.simps(9) option.inject)
    then have ids: "cellId c1k = cellId c0" "Cell.more c1k = Cell.more c0"
      by (simp_all add: erase_eq)
    have rawk: "k = i \<Longrightarrow> raw c0 = v" "k = i \<Longrightarrow> dependencies c0 = []"
      using Some pi di by simp_all
    show ?thesis
      using Some c1k ids rawk d1 ni
      by (auto simp: shape_def own_prepared erase_eq removeAll_setAdd)
  qed
qed

lemma computed_getCell:
  "getCell s k = (case computed s k of None \<Rightarrow> Undefined | Some p \<Rightarrow> fst p)"
  by (cases "own s k") (auto simp: getCell_def lookupCell_def computed_def)

lemma computed_errorOf:
  "errorOf s k = (case computed s k of None \<Rightarrow> None | Some p \<Rightarrow> snd p)"
  by (cases "own s k") (auto simp: errorOf_def computed_def)

lemma setCell_twice:
  assumes wf: "wellFormed s" and i: "own s i = Some cell"
  shows "\<exists>r1 r2. setCell h s i v = Inr r1 \<and> setCell h r1 i v = Inr r2 \<and>
           computed r2 = computed r1"
proof -
  let ?p = "prepared i v cell s"
  let ?t1 = "evaluateCell h ?p i {}"
  have wb: "wellFormedBut i ?p" using wf i by (rule wellFormedBut_prepared)
  obtain ci where ci: "own ?p i = Some ci" "raw ci = v"
    using i by (auto simp: own_prepared)
  have wf1: "wellFormed ?t1" using wb ci(1) by (rule wellFormed_evaluate_prepared)
  have sh1: "shape ?t1 = shape (fold (addEdge i) (formulaRefs v) ?p)"
    using shape_evaluate_prepared [OF wb ci(1)] ci(2) by simp
  have ex1: "own ?t1 i \<noteq> None"
    using ci(1) by (simp add: own_evaluateCell_None)
  from updateDependents_wellFormed(1) [OF wf1 ex1] obtain r1 W where
    u: "updateDependents h ?t1 i {} = Inr (r1, W)" and shr: "shape r1 = shape ?t1" by blast
  have "own r1 i \<noteq> None" using ex1 own_None_shape [OF shr] by simp
  then obtain cell1 where c1: "own r1 i = Some cell1" by auto
  let ?p' = "prepared i v cell1 r1"
  let ?t1' = "evaluateCell h ?p' i {}"
  have shp: "shape ?p = shape ?p'"
    using shape_prepared_again [OF wb ci _ c1] shr sh1 by simp
  from evaluate_prepared_two_runs [OF wb shp ci(1)] have
    w1: "written ?p ?p' ?t1 ?t1'" and e1: "computed ?t1 i = computed ?t1' i" and
    sht: "shape ?t1 = shape ?t1'" by blast+
  from updateDependents_two_runs(1) [OF wf1 sht ex1, of h "{}"] u obtain r2 where
    u': "updateDependents h ?t1' i {} = Inr (r2, W)" and st: "stepped ?t1 ?t1' r1 r2"
    by fastforce
  have s1: "setCell h s i v = Inr r1" using u by (simp add: setCell_own [OF i])
  have s2: "setCell h r1 i v = Inr r2" using u' by (simp add: setCell_own [OF c1])
  have "computed r2 k = computed r1 k" for k
  proof (cases "k = i")
    case True
    with stepped_equal [OF st e1] show ?thesis by simp
  next
    case False
    from st have "written ?t1 ?t1' r1 r2" by (simp add: stepped_def)
    with w1 have "written ?p ?p' r1 r2" by (rule written_trans)
    then show ?thesis
      using computed_prepared [OF False, of v cell1 r1] unfolding written_def by metis
  qed
  then have "computed r2 = computed r1" by (rule ext)
  with s1 s2 show ?thesis by blast
qed

text \<open>The grid after a call of \<^verbatim>\<open>setCell\<close>, whether it returned or threw.\<close>

definition after :: "host \<Rightarrow> Spreadsheet \<Rightarrow> string \<Rightarrow> string \<Rightarrow> Spreadsheet" where
  "after h s i v = (case setCell h s i v of Inl e \<Rightarrow> s | Inr s' \<Rightarrow> s')"

lemma after_twice:
  assumes "reachable h s"
  shows "computed (after h (after h s i v) i v) = computed (after h s i v)"
proof (cases "own s i")
  case None
  then show ?thesis by (simp add: after_def setCell_not_own)
next
  case (Some cell)
  from setCell_twice [OF reachable_wellFormed [OF assms] Some, of h v]
  show ?thesis by (auto simp: after_def)
qed

section \<open>Cells that agree with their dependencies\<close>

definition rawAt :: "Spreadsheet \<Rightarrow> string \<Rightarrow> string option" where
  "rawAt s k = map_option raw (own s k)"

text \<open>The references of the cell \<open>k\<close>: those of its formula.\<close>

definition refsOf :: "Spreadsheet \<Rightarrow> string \<Rightarrow> string list" where
  "refsOf s k = (case own s k of None \<Rightarrow> [] | Some c \<Rightarrow> formulaRefs (raw c))"

text \<open>
  The loop of lines 84 to 91 without its recursive calls: every reference is replaced
  by the value its cell holds now.
\<close>

definition substFrom :: "host \<Rightarrow> Spreadsheet \<Rightarrow> string list \<Rightarrow> string \<Rightarrow> string" where
  "substFrom h s rs e =
     fold (\<lambda>r e. replaceAll r (''('' @ toStr h (coerce h (refValue s r)) @ '')'') e) rs e"

text \<open>
  What lines 60 to 101 compute from a raw text and the values that the referenced
  cells hold now: the value and the error.
\<close>

definition expected :: "host \<Rightarrow> Spreadsheet \<Rightarrow> string \<Rightarrow> jsval \<times> string option" where
  "expected h s rw =
     (if \<not> startsWithEq (trim rw) then (literal h (trim rw), None)
      else
        let e = substFrom h s (matchRefs (trim rw)) (tl (trim rw))
        in if \<not> validExpr e then (Str ''#ERR'', Some ''Invalid formula'')
           else case run h e of
             Inl msg \<Rightarrow> (Str ''#ERR'', Some msg)
           | Inr v \<Rightarrow> (v, None))"

text \<open>
  A cell is consistent when its computed fields are what its raw text yields from the
  current values of its dependencies.
\<close>

definition consistent :: "host \<Rightarrow> Spreadsheet \<Rightarrow> string \<Rightarrow> bool" where
  "consistent h s k =
     (case own s k of None \<Rightarrow> True | Some c \<Rightarrow> (val c, error c) = expected h s (raw c))"

text \<open>
  A set of identifiers with no reference cycle in it: it is closed under references,
  and \<open>rank\<close> goes down along every reference.
\<close>

definition ranked :: "(string \<Rightarrow> nat) \<Rightarrow> string set \<Rightarrow> Spreadsheet \<Rightarrow> bool" where
  "ranked rank G s = (\<forall>a \<in> G. \<forall>r \<in> set (refsOf s a). r \<in> G \<and> rank r < rank a)"

text \<open>A part of such a set that is closed under references and consistent throughout.\<close>

definition solid :: "host \<Rightarrow> string set \<Rightarrow> Spreadsheet \<Rightarrow> string set \<Rightarrow> bool" where
  "solid h G s D =
     (D \<subseteq> G \<and> (\<forall>x \<in> D. (\<forall>r \<in> set (refsOf s x). r \<in> D) \<and> consistent h s x))"

lemma refsOf_rawAt:
  "refsOf s k = (case rawAt s k of None \<Rightarrow> [] | Some rw \<Rightarrow> formulaRefs rw)"
  by (cases "own s k") (simp_all add: refsOf_def rawAt_def)

lemma refsOf_cong: "rawAt t = rawAt s \<Longrightarrow> refsOf t = refsOf s"
  by (rule ext) (simp add: refsOf_rawAt)

lemma ranked_cong: "rawAt t = rawAt s \<Longrightarrow> ranked rank G s \<Longrightarrow> ranked rank G t"
  using refsOf_cong [of t s] by (simp add: ranked_def)

lemma substFrom_cong:
  "(\<And>r. r \<in> set rs \<Longrightarrow> refValue t r = refValue s r) \<Longrightarrow> substFrom h t rs e = substFrom h s rs e"
  unfolding substFrom_def by (induction rs arbitrary: e) simp_all

lemma substFrom_snoc:
  "substFrom h s (rs @ [r]) e =
     replaceAll r (''('' @ toStr h (coerce h (refValue s r)) @ '')'') (substFrom h s rs e)"
  by (simp add: substFrom_def)

lemma expected_cong:
  assumes "\<And>r. r \<in> set (formulaRefs rw) \<Longrightarrow> refValue t r = refValue s r"
  shows "expected h t rw = expected h s rw"
proof (cases "startsWithEq (trim rw)")
  case True
  then have "substFrom h t (matchRefs (trim rw)) (tl (trim rw)) =
             substFrom h s (matchRefs (trim rw)) (tl (trim rw))"
    using assms by (intro substFrom_cong) (simp add: formulaRefs_formula)
  then show ?thesis by (simp add: expected_def)
qed (simp add: expected_def)

lemma consistent_cong:
  assumes "rawAt t k = rawAt s k" and "computed t k = computed s k"
    and "\<And>r. r \<in> set (refsOf s k) \<Longrightarrow> refValue t r = refValue s r"
  shows "consistent h t k = consistent h s k"
proof (cases "own s k")
  case None
  then have "own t k = None" using assms(1) by (simp add: rawAt_def)
  with None show ?thesis by (simp add: consistent_def)
next
  case (Some c)
  then obtain c' where c': "own t k = Some c'" using assms(1) by (auto simp: rawAt_def)
  then have f: "raw c' = raw c" "val c' = val c" "error c' = error c"
    using assms(1,2) Some by (simp_all add: rawAt_def computed_def)
  have "expected h t (raw c) = expected h s (raw c)"
    using assms(3) Some by (intro expected_cong) (simp add: refsOf_def)
  then show ?thesis using Some c' f by (simp add: consistent_def)
qed

lemma solid_cong:
  assumes raw: "rawAt t = rawAt s" and comp: "\<And>x. x \<in> D \<Longrightarrow> computed t x = computed s x"
    and sol: "solid h G s D"
  shows "solid h G t D"
  unfolding solid_def
proof (intro conjI ballI)
  show "D \<subseteq> G" using sol by (simp add: solid_def)
next
  fix x r assume "x \<in> D" "r \<in> set (refsOf t x)"
  then show "r \<in> D" using sol refsOf_cong [OF raw] by (simp add: solid_def)
next
  fix x assume x: "x \<in> D"
  have "consistent h t x = consistent h s x"
  proof (rule consistent_cong)
    fix r assume "r \<in> set (refsOf s x)"
    then have "r \<in> D" using sol x by (simp add: solid_def)
    then show "refValue t r = refValue s r" using comp refValue_computed by blast
  qed (use raw comp x in simp_all)
  then show "consistent h t x" using sol x by (simp add: solid_def)
qed

lemma solid_union: "solid h G s D \<Longrightarrow> solid h G s E \<Longrightarrow> solid h G s (D \<union> E)"
  unfolding solid_def by blast

lemma rawAt_modify:
  "(\<And>c. raw (f c) = raw c) \<Longrightarrow> rawAt (modify i f s) = rawAt s"
  by (rule ext) (simp add: rawAt_def option.map_comp comp_def)

lemma rawAt_fold_addEdge: "rawAt (fold (addEdge i) rs s) = rawAt s"
proof
  fix k show "rawAt (fold (addEdge i) rs s) k = rawAt s k"
    by (cases "own s k") (simp_all add: rawAt_def own_fold_addEdge)
qed

lemma rawAt_finish: "rawAt (finish h i e s) = rawAt s"
proof
  fix k show "rawAt (finish h i e s) k = rawAt s k"
    by (cases "own s k") (auto simp: rawAt_def own_finish raw_finishCell)
qed

text \<open>\<^verbatim>\<open>_evaluateCell\<close> never changes a raw text, whatever the grid.\<close>

lemma rawAt_evaluateCell: "rawAt (evaluateCell h s i V) = rawAt s"
proof (induction s i V rule: evaluateCell_cases)
  case (formula s i V cell)
  let ?refs = "matchRefs (trim (raw cell))"
  have "rawAt (fst (fold (substStep h i V) ?refs (fold (addEdge i) ?refs s, tl (trim (raw cell)))))
        = rawAt s"
    by (rule fold_preserves [where Q = "\<lambda>a. rawAt (fst a) = rawAt s"])
       (simp_all add: fst_substStep formula.IH rawAt_fold_addEdge)
  then show ?case
    using formula.hyps by (simp add: evaluateCell_formula Let_def rawAt_finish)
qed (simp_all add: evaluateCell_absent evaluateCell_circular evaluateCell_literal rawAt_modify)

lemma refsOf_formula:
  "own s i = Some cell \<Longrightarrow> startsWithEq (trim (raw cell)) \<Longrightarrow>
     refsOf s i = matchRefs (trim (raw cell))"
  by (simp add: refsOf_def formulaRefs_formula)

text \<open>
  The frame of an evaluation inside a ranked set: it writes the cell it is called on
  and cells of lower rank in the set, nothing else.
\<close>

lemma evaluateCell_frame:
  "ranked rank G s \<Longrightarrow> i \<in> G \<Longrightarrow> k \<noteq> i \<Longrightarrow> \<not> (k \<in> G \<and> rank k < rank i) \<Longrightarrow>
     computed (evaluateCell h s i V) k = computed s k"
proof (induction s i V rule: evaluateCell_cases)
  case (absent s i V)
  then show ?case by (simp add: evaluateCell_absent)
next
  case (circular s i V cell)
  then show ?case by (simp add: evaluateCell_circular computed_modify)
next
  case (literal s i V cell)
  then show ?case by (simp add: evaluateCell_literal computed_modify)
next
  case (formula s i V cell)
  let ?refs = "matchRefs (trim (raw cell))"
  let ?init = "(fold (addEdge i) ?refs s, tl (trim (raw cell)))"
  let ?Q = "\<lambda>a :: Spreadsheet \<times> string. rawAt (fst a) = rawAt s \<and> computed (fst a) k = computed s k"
  have "?Q (fold (substStep h i V) ?refs ?init)"
  proof (rule fold_preserves [where Q = ?Q])
    fix r and a :: "Spreadsheet \<times> string"
    assume r: "r \<in> set ?refs" and a: "?Q a"
    then have rk: "r \<in> G" "rank r < rank i"
      using formula.prems(1,2) formula.hyps by (auto simp: ranked_def refsOf_formula)
    have "ranked rank G (fst a)" using a formula.prems(1) ranked_cong by blast
    moreover have "k \<noteq> r" "\<not> (k \<in> G \<and> rank k < rank r)" using rk formula.prems(4) by auto
    ultimately have "computed (evaluateCell h (fst a) r (insert i V)) k = computed (fst a) k"
      using formula.IH [OF r] rk(1) by blast
    with a show "?Q (substStep h i V r a)"
      by (simp add: fst_substStep rawAt_evaluateCell)
  qed (simp add: rawAt_fold_addEdge computed_fold_addEdge)
  then show ?case
    using formula.hyps formula.prems(3)
    by (simp add: evaluateCell_formula Let_def computed_finish)
qed

lemma fold_prefix_invariant:
  assumes step: "\<And>pre x a. Q pre a \<Longrightarrow> x \<in> set xs \<Longrightarrow> Q (pre @ [x]) (f x a)"
    and init: "Q pre0 a0"
  shows "Q (pre0 @ xs) (fold f xs a0)"
proof -
  have "set ys \<subseteq> set xs \<Longrightarrow> Q pre a \<Longrightarrow> Q (pre @ ys) (fold f ys a)" for ys pre a
  proof (induction ys arbitrary: pre a)
    case (Cons y ys)
    then have "Q (pre @ [y]) (f y a)" using step by simp
    then have "Q ((pre @ [y]) @ ys) (fold f ys (f y a))"
      using Cons.IH [of "pre @ [y]" "f y a"] Cons.prems by simp
    then show ?case by simp
  qed simp
  then show ?thesis using init by blast
qed

lemma expected_formula:
  "startsWithEq (trim rw) \<Longrightarrow>
     expected h s rw =
       (val (finishCell h (substFrom h s (matchRefs (trim rw)) (tl (trim rw))) c),
        error (finishCell h (substFrom h s (matchRefs (trim rw)) (tl (trim rw))) c))"
  by (simp add: expected_def finishCell_def Let_def split: sum.splits)

lemma expected_literal:
  "\<not> startsWithEq (trim rw) \<Longrightarrow> expected h s rw = (literal h (trim rw), None)"
  by (simp add: expected_def)

text \<open>
  The loop over the references, given that each recursive call keeps the computed
  fields of a solid set \<open>D\<close>: the loop keeps them, and the references that are in \<open>D\<close>
  are replaced by the values they had before the loop.
\<close>

lemma loop_keeps_solid:
  fixes body :: string
  assumes ranked: "ranked rank G s" and solid: "solid h G s D"
    and call: "\<And>r a x. r \<in> set rs \<Longrightarrow> ranked rank G a \<Longrightarrow> solid h G a D \<Longrightarrow> x \<in> D \<Longrightarrow>
                 computed (evaluateCell h a r (insert i V)) x = computed a x"
    and init: "rawAt s0 = rawAt s" "\<And>x. x \<in> D \<Longrightarrow> computed s0 x = computed s x"
  defines "acc \<equiv> fold (substStep h i V) rs (s0, body)"
  shows "rawAt (fst acc) = rawAt s \<and> (\<forall>x \<in> D. computed (fst acc) x = computed s x) \<and>
         (set rs \<subseteq> D \<longrightarrow> snd acc = substFrom h s rs body)"
proof -
  let ?Q = "\<lambda>pre (a :: Spreadsheet \<times> string).
     rawAt (fst a) = rawAt s \<and> (\<forall>x \<in> D. computed (fst a) x = computed s x) \<and>
     (set pre \<subseteq> D \<longrightarrow> snd a = substFrom h s pre body)"
  have "?Q ([] @ rs) (fold (substStep h i V) rs (s0, body))"
  proof (rule fold_prefix_invariant [where Q = ?Q])
    show "?Q [] (s0, body)" using init by (simp add: substFrom_def)
  next
    fix pre r and a :: "Spreadsheet \<times> string"
    assume a: "?Q pre a" and r: "r \<in> set rs"
    let ?a' = "evaluateCell h (fst a) r (insert i V)"
    have rk: "ranked rank G (fst a)" using a ranked ranked_cong by blast
    have so: "solid h G (fst a) D" using a solid solid_cong [of "fst a" s D h G] by blast
    have keep: "computed ?a' x = computed s x" if "x \<in> D" for x
      using call [OF r rk so that] a that by simp
    have "snd (substStep h i V r a) = substFrom h s (pre @ [r]) body" if "set (pre @ [r]) \<subseteq> D"
    proof -
      have "refValue ?a' r = refValue s r" using keep that by (intro refValue_computed) simp
      moreover have "snd a = substFrom h s pre body" using a that by simp
      ultimately show ?thesis by (simp add: snd_substStep fst_substStep substFrom_snoc)
    qed
    then show "?Q (pre @ [r]) (substStep h i V r a)"
      using a keep by (simp add: fst_substStep rawAt_evaluateCell)
  qed
  then show ?thesis by (simp add: acc_def)
qed

text \<open>
  An evaluation that starts outside a solid set, or anywhere when the visited set avoids
  it, leaves the computed fields of the solid set as they are.
\<close>

lemma evaluateCell_keeps_solid:
  "ranked rank G s \<Longrightarrow> solid h G s D \<Longrightarrow> V \<inter> D = {} \<Longrightarrow> x \<in> D \<Longrightarrow>
     computed (evaluateCell h s i V) x = computed s x"
proof (induction s i V arbitrary: D x rule: evaluateCell_cases)
  case (absent s i V)
  then show ?case by (simp add: evaluateCell_absent)
next
  case (circular s i V cell)
  then have "x \<noteq> i" by auto
  then show ?case using circular by (simp add: evaluateCell_circular computed_modify)
next
  case (literal s i V cell)
  show ?case
  proof (cases "x = i")
    case True
    then have "consistent h s i" using literal.prems by (simp add: solid_def)
    then have "(val cell, error cell) = (literal h (trim (raw cell)), None)"
      using literal.hyps by (simp add: consistent_def expected_literal)
    then show ?thesis
      using literal.hyps True by (simp add: evaluateCell_literal computed_modify computed_def)
  next
    case False
    then show ?thesis using literal.hyps by (simp add: evaluateCell_literal computed_modify)
  qed
next
  case (formula s i V cell)
  let ?refs = "matchRefs (trim (raw cell))"
  let ?body = "tl (trim (raw cell))"
  let ?s0 = "fold (addEdge i) ?refs s"
  let ?acc = "fold (substStep h i V) ?refs (?s0, ?body)"
  have ev: "evaluateCell h s i V = finish h i (snd ?acc) (fst ?acc)"
    using formula.hyps by (simp add: evaluateCell_formula Let_def)
  have refs: "refsOf s i = ?refs" using formula.hyps(1,3) by (rule refsOf_formula)
  show ?case
  proof (cases "i \<in> D")
    case False
    have "insert i V \<inter> D = {}" using False formula.prems(3) by simp
    then have "rawAt (fst ?acc) = rawAt s \<and> (\<forall>x \<in> D. computed (fst ?acc) x = computed s x) \<and>
          (set ?refs \<subseteq> D \<longrightarrow> snd ?acc = substFrom h s ?refs ?body)"
      using formula.IH
      by (intro loop_keeps_solid [OF formula.prems(1,2)])
         (simp_all add: rawAt_fold_addEdge computed_fold_addEdge)
    moreover have "x \<noteq> i" using False formula.prems(4) by auto
    ultimately show ?thesis using formula.prems(4) by (simp add: ev computed_finish)
  next
    case True
    define D' where "D' = {y \<in> D. rank y < rank i}"
    have iG: "i \<in> G" using True formula.prems(2) by (auto simp: solid_def)
    have solid': "solid h G s D'"
      unfolding solid_def
    proof (intro conjI ballI)
      show "D' \<subseteq> G" using formula.prems(2) by (auto simp: solid_def D'_def)
    next
      fix y r assume y: "y \<in> D'" and r: "r \<in> set (refsOf s y)"
      then have "y \<in> G" "y \<in> D" using formula.prems(2) by (auto simp: solid_def D'_def)
      then have "r \<in> D" "rank r < rank y"
        using formula.prems(1,2) r by (auto simp: solid_def ranked_def)
      then show "r \<in> D'" using y by (simp add: D'_def)
    next
      fix y assume "y \<in> D'"
      then show "consistent h s y" using formula.prems(2) by (simp add: solid_def D'_def)
    qed
    have "insert i V \<inter> D' = {}" using formula.prems(3) by (auto simp: D'_def)
    then have loop: "rawAt (fst ?acc) = rawAt s \<and> (\<forall>x \<in> D'. computed (fst ?acc) x = computed s x) \<and>
          (set ?refs \<subseteq> D' \<longrightarrow> snd ?acc = substFrom h s ?refs ?body)"
      using formula.IH
      by (intro loop_keeps_solid [OF formula.prems(1) solid'])
         (simp_all add: rawAt_fold_addEdge computed_fold_addEdge)
    have "set ?refs \<subseteq> D'"
      using formula.prems(1,2) True iG refs by (auto simp: solid_def ranked_def D'_def)
    then have e: "snd ?acc = substFrom h s ?refs ?body" using loop by simp
    consider "x = i" | "x \<in> D'" | "x \<noteq> i" "\<not> (x \<in> G \<and> rank x < rank i)"
      using formula.prems(2,4) by (auto simp: D'_def solid_def)
    then show ?thesis
    proof cases
      case 1
      have "consistent h s i" using True formula.prems(2) by (simp add: solid_def)
      then have old: "computed s i = Some (expected h s (raw cell))"
        using formula.hyps by (simp add: consistent_def computed_def)
      have "rawAt (fst ?acc) i = rawAt s i" using loop by simp
      then obtain c' where c': "own (fst ?acc) i = Some c'"
        using formula.hyps by (auto simp: rawAt_def)
      have "computed (finish h i (snd ?acc) (fst ?acc)) i =
            Some (val (finishCell h (snd ?acc) c'), error (finishCell h (snd ?acc) c'))"
        using c' by (simp add: computed_finish)
      also have "\<dots> = Some (expected h s (raw cell))"
        using formula.hyps(3) e expected_formula [of "raw cell" h s c'] by simp
      finally show ?thesis using 1 old by (simp add: ev)
    next
      case 2
      then have "x \<noteq> i" by (auto simp: D'_def)
      then show ?thesis using loop 2 by (simp add: ev computed_finish)
    next
      case 3
      then show ?thesis using evaluateCell_frame [OF formula.prems(1) iG] by blast
    qed
  qed
qed

lemma solid_empty: "solid h G s {}"
  by (simp add: solid_def)

lemma solid_consistent: "solid h G s D \<Longrightarrow> x \<in> D \<Longrightarrow> consistent h s x"
  by (simp add: solid_def)

text \<open>
  An evaluation inside a ranked set, with no visited cell below the cell it starts on,
  leaves that cell in a solid set: the cell and everything it was computed from agree.
\<close>

lemma evaluateCell_makes_solid:
  "ranked rank G s \<Longrightarrow> i \<in> G \<Longrightarrow> i \<notin> V \<Longrightarrow> V \<inter> {x \<in> G. rank x < rank i} = {} \<Longrightarrow>
     \<exists>D. i \<in> D \<and> D \<subseteq> insert i {x \<in> G. rank x < rank i} \<and> solid h G (evaluateCell h s i V) D"
proof (induction s i V rule: evaluateCell_cases)
  case (absent s i V)
  then have "solid h G s {i}" by (simp add: solid_def refsOf_def consistent_def)
  then show ?case using absent by (intro exI [of _ "{i}"]) (simp add: evaluateCell_absent)
next
  case (circular s i V cell)
  then show ?case by simp
next
  case (literal s i V cell)
  let ?t = "evaluateCell h s i V"
  have own: "own ?t i = Some (cell\<lparr>val := literal h (trim (raw cell)), error := None\<rparr>)"
    using literal.hyps by (simp add: evaluateCell_literal)
  then have "refsOf ?t i = []" "consistent h ?t i"
    using literal.hyps(3) by (simp_all add: refsOf_def formulaRefs_literal consistent_def expected_literal)
  then have "solid h G ?t {i}" using literal.prems(2) by (simp add: solid_def)
  then show ?case by (intro exI [of _ "{i}"]) simp
next
  case (formula s i V cell)
  let ?refs = "matchRefs (trim (raw cell))"
  let ?body = "tl (trim (raw cell))"
  let ?s0 = "fold (addEdge i) ?refs s"
  let ?acc = "fold (substStep h i V) ?refs (?s0, ?body)"
  define below where "below = {x \<in> G. rank x < rank i}"
  have ev: "evaluateCell h s i V = finish h i (snd ?acc) (fst ?acc)"
    using formula.hyps by (simp add: evaluateCell_formula Let_def)
  have refs: "refsOf s i = ?refs" using formula.hyps(1,3) by (rule refsOf_formula)
  have refs_below: "set ?refs \<subseteq> below"
    using formula.prems(1,2) refs by (auto simp: ranked_def below_def)
  have V: "insert i V \<inter> below = {}" using formula.prems(4) by (auto simp: below_def)
  let ?Q = "\<lambda>pre (a :: Spreadsheet \<times> string).
     rawAt (fst a) = rawAt s \<and> (\<exists>D. set pre \<subseteq> D \<and> D \<subseteq> below \<and> solid h G (fst a) D) \<and>
     snd a = substFrom h (fst a) pre ?body"
  have "?Q ([] @ ?refs) ?acc"
  proof (rule fold_prefix_invariant [where Q = ?Q])
    show "?Q [] (?s0, ?body)"
      using solid_empty [of h G ?s0] by (auto simp: rawAt_fold_addEdge substFrom_def)
  next
    fix pre r and a :: "Spreadsheet \<times> string"
    assume a: "?Q pre a" and r: "r \<in> set ?refs"
    let ?a' = "evaluateCell h (fst a) r (insert i V)"
    obtain D where D: "set pre \<subseteq> D" "D \<subseteq> below" "solid h G (fst a) D" using a by blast
    have rk: "ranked rank G (fst a)" using a formula.prems(1) ranked_cong by blast
    have rb: "r \<in> below" using r refs_below by blast
    have VD: "insert i V \<inter> D = {}" using V D(2) by blast
    have keep: "computed ?a' x = computed (fst a) x" if "x \<in> D" for x
      using evaluateCell_keeps_solid [OF rk D(3) VD that] .
    have raw': "rawAt ?a' = rawAt (fst a)" by (rule rawAt_evaluateCell)
    have solidD: "solid h G ?a' D" using solid_cong [OF raw' keep D(3)] by simp
    have "r \<in> G" "r \<notin> insert i V" "insert i V \<inter> {x \<in> G. rank x < rank r} = {}"
      using rb V by (auto simp: below_def)
    then obtain E where E: "r \<in> E" "E \<subseteq> insert r {x \<in> G. rank x < rank r}" "solid h G ?a' E"
      using formula.IH [OF r rk] by blast
    have "E \<subseteq> below" using E(2) rb by (auto simp: below_def)
    then have 1: "set (pre @ [r]) \<subseteq> D \<union> E \<and> D \<union> E \<subseteq> below \<and> solid h G ?a' (D \<union> E)"
      using D E solidD solid_union by auto
    have "substFrom h ?a' pre ?body = substFrom h (fst a) pre ?body"
      using keep D(1) by (intro substFrom_cong refValue_computed) blast
    then have 2: "snd (substStep h i V r a) = substFrom h ?a' (pre @ [r]) ?body"
      using a by (simp add: snd_substStep fst_substStep substFrom_snoc)
    show "?Q (pre @ [r]) (substStep h i V r a)"
      using a 1 2 unfolding fst_substStep raw' by blast
  qed
  then have "\<exists>D. rawAt (fst ?acc) = rawAt s \<and> set ?refs \<subseteq> D \<and> D \<subseteq> below \<and>
      solid h G (fst ?acc) D \<and> snd ?acc = substFrom h (fst ?acc) ?refs ?body"
    by auto
  moreover define an where "an = fst ?acc"
  moreover define e where "e = snd ?acc"
  ultimately obtain D where raw: "rawAt an = rawAt s"
    and D: "set ?refs \<subseteq> D" "D \<subseteq> below" "solid h G an D"
    and e: "e = substFrom h an ?refs ?body"
    by auto
  define t where "t = finish h i e an"
  have ev': "evaluateCell h s i V = t" by (simp add: ev t_def an_def e_def)
  have iD: "i \<notin> D" using D(2) by (auto simp: below_def)
  have raw_t: "rawAt t = rawAt s" using raw by (simp add: rawAt_finish t_def)
  have comp_t: "computed t x = computed an x" if "x \<in> D" for x
    using that iD by (auto simp: computed_finish t_def)
  have val_t: "refValue t r = refValue an r" if "r \<in> D" for r
    using comp_t [OF that] by (rule refValue_computed)
  have solidD: "solid h G t D"
    using solid_cong [OF _ comp_t D(3)] raw raw_t by simp
  have "rawAt an i = rawAt s i" using raw by simp
  then obtain c' where c': "own an i = Some c'" "raw c' = raw cell"
    using formula.hyps(1) by (auto simp: rawAt_def)
  have own_t: "own t i = Some (finishCell h e c')"
    using c' by (simp add: own_finish t_def)
  have "substFrom h t ?refs ?body = substFrom h an ?refs ?body"
  proof (rule substFrom_cong)
    fix r assume "r \<in> set ?refs"
    then show "refValue t r = refValue an r" using val_t D(1) by blast
  qed
  then have et: "substFrom h t ?refs ?body = e" using e by simp
  have ct: "consistent h t i"
    using own_t c'(2) formula.hyps(3) expected_formula [of "raw cell" h t "c'"] et
    by (simp add: consistent_def)
  have "refsOf t i = refsOf s i" using refsOf_cong [OF raw_t] by simp
  then have rt: "set (refsOf t i) \<subseteq> D" using refs D(1) by simp
  have "solid h G t (insert i D)"
    unfolding solid_def
  proof (intro conjI ballI)
    show "insert i D \<subseteq> G" using formula.prems(2) solidD by (simp add: solid_def)
  next
    fix x r assume "x \<in> insert i D" "r \<in> set (refsOf t x)"
    then show "r \<in> insert i D" using rt solidD unfolding solid_def by blast
  next
    fix x assume "x \<in> insert i D"
    then show "consistent h t x" using ct solidD unfolding solid_def by blast
  qed
  then show ?case
    using D(2) unfolding ev' below_def by (intro exI [of _ "insert i D"]) auto
qed

section \<open>What the sweep over the dependents reaches\<close>

definition dependentsOf :: "Spreadsheet \<Rightarrow> string \<Rightarrow> string list" where
  "dependentsOf s x = (case own s x of None \<Rightarrow> [] | Some c \<Rightarrow> dependents c)"

lemma rawAt_shape: "shape t = shape s \<Longrightarrow> rawAt t = rawAt s"
proof
  fix k assume sh: "shape t = shape s"
  show "rawAt t k = rawAt s k"
  proof (cases "own s k")
    case None
    then show ?thesis using own_None_shape [OF sh, of k] by (simp add: rawAt_def)
  next
    case (Some c)
    from shape_fields [OF sh [symmetric] Some] show ?thesis
      using Some by (auto simp: rawAt_def)
  qed
qed

lemma dependentsOf_shape: "shape t = shape s \<Longrightarrow> dependentsOf t = dependentsOf s"
proof
  fix k assume sh: "shape t = shape s"
  show "dependentsOf t k = dependentsOf s k"
  proof (cases "own s k")
    case None
    then have "own t k = None" using own_None_shape [OF sh, of k] by simp
    then show ?thesis using None by (simp add: dependentsOf_def)
  next
    case (Some c)
    from shape_fields [OF sh [symmetric] Some] obtain d where
      "own t k = Some d" "dependents d = dependents c" by metis
    then show ?thesis using Some by (simp add: dependentsOf_def)
  qed
qed

lemma evaluateCell_solid_stable:
  assumes "ranked rank G s" "solid h G s D"
  shows "solid h G (evaluateCell h s d {}) D"
proof (rule solid_cong [OF rawAt_evaluateCell _ assms(2)])
  fix x assume "x \<in> D"
  then show "computed (evaluateCell h s d {}) x = computed s x"
    using evaluateCell_keeps_solid [OF assms] by simp
qed

text \<open>The sweep keeps every solid set solid.\<close>

lemma sweep_solid_stable:
  assumes "ranked rank G s" "solid h G s D" "updateDependents h s i V = Inr (u, W)"
  shows "solid h G u D"
proof -
  let ?Q = "\<lambda>t. rawAt t = rawAt s \<and> solid h G t D"
  have "?Q u"
  proof (rule updateDependents_preserves [where Q = ?Q, OF _ _ assms(3)])
    fix t d assume t: "?Q t"
    then have "ranked rank G t" using assms(1) ranked_cong by blast
    then show "?Q (evaluateCell h t d {})"
      using t evaluateCell_solid_stable by (simp add: rawAt_evaluateCell)
  qed (use assms in simp)
  then show ?thesis by simp
qed

lemma sweepEach_solid_stable:
  assumes "ranked rank G s" "solid h G s D" "updateEach h ds s V = Inr (u, W)"
  shows "solid h G u D"
proof -
  let ?Q = "\<lambda>t. rawAt t = rawAt s \<and> solid h G t D"
  have "\<forall>t d. ?Q t \<longrightarrow> ?Q (evaluateCell h t d {})"
  proof (intro allI impI)
    fix t d assume t: "?Q t"
    then have "ranked rank G t" using assms(1) ranked_cong by blast
    then show "?Q (evaluateCell h t d {})"
      using t evaluateCell_solid_stable by (simp add: rawAt_evaluateCell)
  qed
  from updateDependents_preserves_aux(2) [of ?Q h s ds V u W, OF this _ assms(3)]
  show ?thesis using assms(2) by simp
qed

text \<open>
  The sweep visits every cell that depends on the cell it starts on, and every cell of
  the ranked set it has re-evaluated is left in a solid set.
\<close>

lemma sweep_covers:
  "wellFormed t \<Longrightarrow> ranked rank G t \<Longrightarrow> updateDependents h t i V = Inr (u, W) \<Longrightarrow>
     shape u = shape t \<and> V \<subseteq> W \<and> i \<in> W \<and>
     (\<forall>x \<in> W - V. own t x \<noteq> None \<and> set (dependentsOf t x) \<subseteq> W) \<and>
     (\<forall>x \<in> W - V. x \<noteq> i \<longrightarrow> x \<in> G \<longrightarrow> (\<exists>D. x \<in> D \<and> solid h G u D))"
  "wellFormed t \<Longrightarrow> ranked rank G t \<Longrightarrow> updateEach h ds t V = Inr (u, W) \<Longrightarrow>
     shape u = shape t \<and> V \<subseteq> W \<and> set ds \<subseteq> W \<and>
     (\<forall>x \<in> W - V. own t x \<noteq> None \<and> set (dependentsOf t x) \<subseteq> W) \<and>
     (\<forall>x \<in> W - V. x \<in> G \<longrightarrow> (\<exists>D. x \<in> D \<and> solid h G u D))"
proof (induction h t i V and h ds t V arbitrary: u W and u W
       rule: updateDependents_updateEach.induct)
  case (1 h s i visited)
  show ?case
  proof (cases "i \<in> visited")
    case True
    then show ?thesis using 1(4) by (auto simp: updateDependents.simps)
  next
    case False
    then obtain cell where cell: "own s i = Some cell"
      and each: "updateEach h (dependents cell) s (insert i visited) = Inr (u, W)"
      using 1(4) by (auto simp: updateDependents.simps split: option.splits)
    have dep: "dependentsOf s i = dependents cell" using cell by (simp add: dependentsOf_def)
    from 1(1) [OF False cell 1(2,3) each]
    have a: "shape u = shape s" "insert i visited \<subseteq> W" "set (dependents cell) \<subseteq> W"
      and b: "\<forall>x \<in> W - insert i visited. own s x \<noteq> None \<and> set (dependentsOf s x) \<subseteq> W"
      and c: "\<forall>x \<in> W - insert i visited. x \<in> G \<longrightarrow> (\<exists>D. x \<in> D \<and> solid h G u D)"
      by blast+
    have "\<forall>x \<in> W - visited. own s x \<noteq> None \<and> set (dependentsOf s x) \<subseteq> W"
    proof
      fix x assume "x \<in> W - visited"
      then show "own s x \<noteq> None \<and> set (dependentsOf s x) \<subseteq> W"
        using a(3) b dep cell by (cases "x = i") auto
    qed
    moreover have "\<forall>x \<in> W - visited. x \<noteq> i \<longrightarrow> x \<in> G \<longrightarrow> (\<exists>D. x \<in> D \<and> solid h G u D)"
      using c by blast
    ultimately show ?thesis using a by blast
  qed
next
  case (2 h s visited)
  then show ?case by simp
next
  case (3 h d ds s visited)
  let ?s1 = "evaluateCell h s d {}"
  from 3(5) obtain s1 V1 where
    one: "updateDependents h ?s1 d visited = Inr (s1, V1)" and
    rest: "updateEach h ds s1 V1 = Inr (u, W)"
    by (auto split: sum.splits)
  have rk0: "ranked rank G s" using 3(4) .
  have sh1: "shape ?s1 = shape s" using 3(3) by (rule shape_evaluateCell)
  have wf1: "wellFormed ?s1" using 3(3) by (rule wellFormed_evaluateCell)
  have rk1: "ranked rank G ?s1" using 3(4) ranked_cong [OF rawAt_evaluateCell] by blast
  from 3(1) [OF wf1 rk1 one]
  have a1: "shape s1 = shape ?s1" "visited \<subseteq> V1" "d \<in> V1"
    and b1: "\<forall>x \<in> V1 - visited. own ?s1 x \<noteq> None \<and> set (dependentsOf ?s1 x) \<subseteq> V1"
    and c1: "\<forall>x \<in> V1 - visited. x \<noteq> d \<longrightarrow> x \<in> G \<longrightarrow> (\<exists>D. x \<in> D \<and> solid h G s1 D)"
    by blast+
  have sh2: "shape s1 = shape s" using a1(1) sh1 by simp
  have wf2: "wellFormed s1" using wellFormed_shape [OF sh2 [symmetric] 3(3)] .
  have rk2: "ranked rank G s1" using 3(4) ranked_cong [OF rawAt_shape [OF sh2]] by blast
  from 3(2) [OF one, simplified, OF wf2 rk2 rest]
  have a2: "shape u = shape s1" "V1 \<subseteq> W" "set ds \<subseteq> W"
    and b2: "\<forall>x \<in> W - V1. own s1 x \<noteq> None \<and> set (dependentsOf s1 x) \<subseteq> W"
    and c2: "\<forall>x \<in> W - V1. x \<in> G \<longrightarrow> (\<exists>D. x \<in> D \<and> solid h G u D)"
    by blast+
  have d1: "dependentsOf ?s1 = dependentsOf s" and d2: "dependentsOf s1 = dependentsOf s"
    using dependentsOf_shape sh1 sh2 by blast+
  have o1: "own ?s1 x \<noteq> None \<longleftrightarrow> own s x \<noteq> None"
    and o2: "own s1 x \<noteq> None \<longleftrightarrow> own s x \<noteq> None" for x
    using own_None_shape [OF sh1, of x] own_None_shape [OF sh2, of x] by simp_all
  have closed: "\<forall>x \<in> W - visited. own s x \<noteq> None \<and> set (dependentsOf s x) \<subseteq> W"
  proof
    fix x assume "x \<in> W - visited"
    then consider "x \<in> V1 - visited" | "x \<in> W - V1" by blast
    then show "own s x \<noteq> None \<and> set (dependentsOf s x) \<subseteq> W"
      using b1 b2 a2(2) unfolding d1 d2 o1 o2 by cases blast+
  qed
  have covered: "\<exists>D. x \<in> D \<and> solid h G u D" if x: "x \<in> W - visited" "x \<in> G" for x
  proof -
    consider "x \<in> W - V1" | "x \<in> V1 - visited" "x \<noteq> d" | "x = d" using x by blast
    then show ?thesis
    proof cases
      case 1
      then show ?thesis using c2 x(2) by blast
    next
      case 2
      then obtain D where "x \<in> D" "solid h G s1 D" using c1 x(2) by blast
      then show ?thesis using sweepEach_solid_stable [OF rk2 _ rest] by blast
    next
      case 3
      then have "\<exists>D. d \<in> D \<and> D \<subseteq> insert d {x \<in> G. rank x < rank d} \<and> solid h G ?s1 D"
        using x(2) rk0 by (intro evaluateCell_makes_solid) simp_all
      then obtain D where "d \<in> D" "solid h G ?s1 D" by blast
      then have "solid h G s1 D" using sweep_solid_stable [OF rk1 _ one] by blast
      then have "solid h G u D" using sweepEach_solid_stable [OF rk2 _ rest] by blast
      then show ?thesis using 3 \<open>d \<in> D\<close> by blast
    qed
  qed
  show ?case using a1 a2 sh2 closed covered by auto
qed

lemma solid_cong_on:
  assumes raw: "\<And>x. x \<in> D \<Longrightarrow> rawAt t x = rawAt s x"
    and comp: "\<And>x. x \<in> D \<Longrightarrow> computed t x = computed s x"
    and sol: "solid h G s D"
  shows "solid h G t D"
  unfolding solid_def
proof (intro conjI ballI)
  show "D \<subseteq> G" using sol by (simp add: solid_def)
next
  fix x r assume "x \<in> D" "r \<in> set (refsOf t x)"
  then show "r \<in> D" using sol raw [of x] by (simp add: solid_def refsOf_rawAt)
next
  fix x assume x: "x \<in> D"
  have "consistent h t x = consistent h s x"
  proof (rule consistent_cong)
    fix r assume "r \<in> set (refsOf s x)"
    then have "r \<in> D" using sol x by (simp add: solid_def)
    then show "refValue t r = refValue s r" using comp refValue_computed by blast
  qed (use raw comp x in simp_all)
  then show "consistent h t x" using sol x by (simp add: solid_def)
qed

lemma consistent_newSpreadsheet: "consistent h (newSpreadsheet c r) k"
proof (cases "own (newSpreadsheet c r) k")
  case None
  then show ?thesis by (simp add: consistent_def)
next
  case (Some cell)
  then have "cell = newCell k" by (rule own_newSpreadsheet)
  then show ?thesis
    using Some
    by (simp add: consistent_def newCell_def expected_def trim_def startsWithEq_def literal_def)
qed

text \<open>
  One call of \<^verbatim>\<open>setCell\<close> on a well-formed grid in which every cycle-free part is
  consistent leaves every cycle-free part consistent.
\<close>

lemma setCell_consistent:
  assumes wf: "wellFormed s"
    and inv: "\<And>rank G k. ranked rank G s \<Longrightarrow> k \<in> G \<Longrightarrow> consistent h s k"
    and cell: "own s a = Some cell"
    and set: "setCell h s a v = Inr s'"
    and rk: "ranked rank G s'" and c: "c \<in> G"
  shows "consistent h s' c"
proof -
  define p where "p = prepared a v cell s"
  define t1 where "t1 = evaluateCell h p a {}"
  from set obtain W where u: "updateDependents h t1 a {} = Inr (s', W)"
    by (auto simp: setCell_own [OF cell] map_sum_def p_def t1_def split: sum.splits)
  obtain ci where ci: "own p a = Some ci" using cell by (auto simp: own_prepared p_def)
  have wf1: "wellFormed t1"
    unfolding t1_def using wellFormedBut_prepared [OF wf cell] ci
    unfolding p_def by (rule wellFormed_evaluate_prepared)
  have raw1: "rawAt t1 = rawAt p" by (simp add: t1_def rawAt_evaluateCell)
  have rawp: "rawAt p x = rawAt s x" if "x \<noteq> a" for x
    using that by (cases "own s x") (simp_all add: rawAt_def p_def own_prepared)
  have cover0: "\<exists>s' V'. updateDependents h t1 a {} = Inr (s', V') \<and> shape s' = shape t1"
    using wf1 ci by (intro updateDependents_wellFormed(1)) (simp_all add: t1_def own_evaluateCell_None)
  then have sh: "shape s' = shape t1" using u by simp
  have raw': "rawAt s' = rawAt t1" using sh by (rule rawAt_shape)
  have rk1: "ranked rank G t1" using rk ranked_cong [of t1 s'] raw' by simp
  have rkp: "ranked rank G p" using rk1 ranked_cong [of p t1] raw1 by simp
  from sweep_covers(1) [OF wf1 rk1 u]
  have aW: "a \<in> W"
    and closed: "\<forall>x \<in> W. own t1 x \<noteq> None \<and> set (dependentsOf t1 x) \<subseteq> W"
    and covered: "\<forall>x \<in> W. x \<noteq> a \<longrightarrow> x \<in> G \<longrightarrow> (\<exists>D. x \<in> D \<and> solid h G s' D)"
    by simp_all
  consider "c = a" | "c \<in> W" "c \<noteq> a" | "c \<notin> W" by blast
  then show ?thesis
  proof cases
    case 1
    have "\<exists>D. a \<in> D \<and> D \<subseteq> insert a {x \<in> G. rank x < rank a} \<and> solid h G (evaluateCell h p a {}) D"
      using rkp c 1 by (intro evaluateCell_makes_solid) simp_all
    then obtain D where D: "a \<in> D" "solid h G t1 D" unfolding t1_def by blast
    have "solid h G s' D" using sweep_solid_stable [OF rk1 D(2) u] .
    then show ?thesis using D(1) 1 by (simp add: solid_consistent)
  next
    case 2
    then obtain D where "c \<in> D" "solid h G s' D" using covered c by blast
    then show ?thesis by (simp add: solid_consistent)
  next
    case 3
    define G0 where "G0 = G - W"
    have refs_eq: "refsOf s x = refsOf s' x" if "x \<in> G0" for x
    proof -
      have "x \<noteq> a" using that aW by (auto simp: G0_def)
      then have "rawAt s x = rawAt s' x" using rawp raw1 raw' by simp
      then show ?thesis by (simp add: refsOf_rawAt)
    qed
    have down: "r \<in> G0 \<and> rank r < rank x" if x: "x \<in> G0" and r: "r \<in> set (refsOf s x)" for x r
    proof -
      have r': "r \<in> set (refsOf s' x)" using refs_eq [OF x] r by simp
      then have rG: "r \<in> G" "rank r < rank x" using rk x by (auto simp: ranked_def G0_def)
      have "r \<notin> W"
      proof
        assume rW: "r \<in> W"
        then obtain cr where cr: "own t1 r = Some cr" using closed by blast
        have "r \<in> set (refsOf t1 x)" using r' refsOf_cong [OF raw'] by simp
        then obtain cx where "own t1 x = Some cx" "r \<in> set (formulaRefs (raw cx))"
          by (cases "own t1 x") (simp_all add: refsOf_def)
        then have "x \<in> set (dependents cr)" using wf1 cr unfolding wellFormed_def by blast
        then have "x \<in> set (dependentsOf t1 r)" using cr by (simp add: dependentsOf_def)
        then have "x \<in> W" using closed rW by blast
        then show False using x by (simp add: G0_def)
      qed
      then show ?thesis using rG by (simp add: G0_def)
    qed
    have rk0: "ranked rank G0 s" unfolding ranked_def using down by blast
    have "solid h G s G0"
      unfolding solid_def
    proof (intro conjI ballI)
      show "G0 \<subseteq> G" by (simp add: G0_def)
    next
      fix x r assume "x \<in> G0" "r \<in> set (refsOf s x)"
      then show "r \<in> G0" using down by blast
    next
      fix x assume "x \<in> G0"
      then show "consistent h s x" by (rule inv [OF rk0])
    qed
    then have "solid h G p G0"
    proof (rule solid_cong_on [rotated 2])
      fix x assume "x \<in> G0"
      then have "x \<noteq> a" using aW by (auto simp: G0_def)
      then show "rawAt p x = rawAt s x" "computed p x = computed s x"
        using rawp by (simp_all add: p_def computed_prepared)
    qed
    then have "solid h G t1 G0" unfolding t1_def using rkp by (intro evaluateCell_solid_stable)
    then have "solid h G s' G0" using sweep_solid_stable [OF rk1 _ u] by blast
    then show ?thesis using 3 c by (intro solid_consistent [where D = G0]) (simp_all add: G0_def)
  qed
qed

text \<open>On every grid the program can reach, every cycle-free part is consistent.\<close>

lemma reachable_consistent:
  "reachable h s \<Longrightarrow> ranked rank G s \<Longrightarrow> k \<in> G \<Longrightarrow> consistent h s k"
proof (induction arbitrary: rank G k rule: reachable.induct)
  case (constructed c r)
  show ?case by (rule consistent_newSpreadsheet)
next
  case (set s i v s')
  show ?case
  proof (cases "own s i")
    case None
    then have "s' = s" using set.hyps(2) by (simp add: setCell_not_own split: if_splits)
    then show ?thesis using set.IH set.prems by blast
  next
    case (Some cell)
    show ?thesis
      using reachable_wellFormed [OF set.hyps(1)] set.IH Some set.hyps(2) set.prems
      by (rule setCell_consistent)
  qed
qed

section \<open>What a consistent cell holds\<close>

lemma substFrom_append:
  "substFrom h s (xs @ ys) e = substFrom h s ys (substFrom h s xs e)"
  by (simp add: substFrom_def)

lemma substFrom_Cons:
  "substFrom h s (r # rs) e =
     substFrom h s rs (replaceAll r (''('' @ toStr h (coerce h (refValue s r)) @ '')'') e)"
  by (simp add: substFrom_def)

lemma occursIn_substFrom:
  assumes "occursIn r e" "r \<in> allRefs" "set rs \<subseteq> allRefs" "r \<notin> set rs"
  shows "occursIn r (substFrom h s rs e)"
  using assms
proof (induction rs arbitrary: e)
  case Nil
  then show ?case by (simp add: substFrom_def)
next
  case (Cons r' rs)
  from Cons.prems(2) allRefs_two obtain a d where r: "r = [a, d]" "isColLetter a" "isRowDigit d"
    by blast
  from Cons.prems(3) allRefs_two obtain a' d' where
    r': "r' = [a', d']" "isColLetter a'" "isRowDigit d'" by fastforce
  have "r \<noteq> r'" using Cons.prems(4) by auto
  then have "occursIn r (replaceAll r' (''('' @ toStr h (coerce h (refValue s r')) @ '')'') e)"
    using Cons.prems(1) r r' by (simp add: occursIn_replaceAll)
  then show ?case using Cons.IH Cons.prems(2,3,4) by (simp add: substFrom_Cons)
qed

lemma keeps_substFrom:
  assumes "ch \<in> set e" "\<not> isColLetter ch" "\<not> isRowDigit ch" "set rs \<subseteq> allRefs"
  shows "ch \<in> set (substFrom h s rs e)"
  using assms
proof (induction rs arbitrary: e)
  case Nil
  then show ?case by (simp add: substFrom_def)
next
  case (Cons r' rs)
  from Cons.prems(4) allRefs_two obtain a' d' where
    "r' = [a', d']" "isColLetter a'" "isRowDigit d'" by fastforce
  with Cons.prems(2,3) have "ch \<notin> set r'" by auto
  then have "ch \<in> set (replaceAll r' (''('' @ toStr h (coerce h (refValue s r')) @ '')'') e)"
    using Cons.prems(1) by (simp add: replaceAll_keeps)
  then show ?case using Cons.IH Cons.prems(2,3,4) by (simp add: substFrom_Cons)
qed

text \<open>
  A reference to a cell that holds a non-finite number puts a letter in the expression
  that no later substitution removes.
\<close>

lemma nonfinite_substFrom:
  assumes t: "startsWithEq t" and r: "r \<in> set (matchRefs t)"
    and nf: "refValue s r \<in> {Num PosInf, Num NegInf, Num NaN}"
  shows "\<not> validExpr (substFrom h s (matchRefs t) (tl t))"
proof -
  from split_list_first [OF r] obtain pre post where
    refs: "matchRefs t = pre @ r # post" and first: "r \<notin> set pre" by blast
  have sub: "set (matchRefs t) \<subseteq> allRefs" using matchRefs_allRefs by blast
  then have ra: "r \<in> allRefs" and pre: "set pre \<subseteq> allRefs" and post: "set post \<subseteq> allRefs"
    using refs by auto
  have "occursIn r (tl t)" using t r by (rule matchRefs_occursIn_body)
  then have "occursIn r (substFrom h s pre (tl t))"
    using ra pre first by (rule occursIn_substFrom)
  then obtain p q where pq: "substFrom h s pre (tl t) = p @ r @ q"
    by (auto simp: occursIn_def)
  have rne: "r \<noteq> []" using ra allRefs_two by blast
  from nonfinite_text [OF nf, of h] obtain ch where
    ch: "ch \<in> set (toStr h (coerce h (refValue s r)))"
      "\<not> allowedChar ch" "\<not> isColLetter ch" "\<not> isRowDigit ch" by blast
  let ?rep = "''('' @ toStr h (coerce h (refValue s r)) @ '')''"
  have "set ?rep \<subseteq> set (replaceAll r ?rep (substFrom h s pre (tl t)))"
    using rne pq by (rule replaceAll_inserts)
  then have "ch \<in> set (replaceAll r ?rep (substFrom h s pre (tl t)))"
    using ch(1) by auto
  then have "ch \<in> set (substFrom h s post (replaceAll r ?rep (substFrom h s pre (tl t))))"
    using ch(3,4) post by (rule keeps_substFrom)
  then have "ch \<in> set (substFrom h s (matchRefs t) (tl t))"
    by (simp add: refs substFrom_append substFrom_Cons)
  with ch(2) show ?thesis by (auto simp: validExpr_def list_all_iff)
qed

lemma consistent_invalid:
  assumes "consistent h s i" and "own s i = Some cell" and "startsWithEq (trim (raw cell))"
    and "\<not> validExpr (substFrom h s (matchRefs (trim (raw cell))) (tl (trim (raw cell))))"
  shows "getCell s i = Str ''#ERR'' \<and> errorOf s i = Some ''Invalid formula''"
  using assms by (simp add: consistent_def expected_def getCell_own errorOf_own)

lemma getCell_refValue: "getCell s r \<noteq> Undefined \<Longrightarrow> refValue s r = getCell s r"
  by (cases "own s r") (simp_all add: getCell_def lookupCell_def refValue_def)

text \<open>
  On a grid the program can reach, a cycle-free part is a solid set, so evaluating any
  cell again leaves every computed field in it as it is.
\<close>

lemma reachable_solid:
  assumes "reachable h s" "ranked rank G s"
  shows "solid h G s G"
  unfolding solid_def
proof (intro conjI ballI)
  fix x r assume "x \<in> G" "r \<in> set (refsOf s x)"
  then show "r \<in> G" using assms(2) by (simp add: ranked_def)
next
  fix x assume "x \<in> G"
  then show "consistent h s x" using assms by (rule reachable_consistent [rotated 2])
qed simp

lemma evaluateCell_again:
  assumes "reachable h s" "ranked rank G s" "x \<in> G"
  shows "computed (evaluateCell h s i {}) x = computed s x"
  using evaluateCell_keeps_solid [OF assms(2) reachable_solid [OF assms(1,2)] _ assms(3)]
  by simp

lemma setCell_returns:
  assumes "reachable h s" "own s i \<noteq> None"
  shows "\<exists>s' c. setCell h s i v = Inr s' \<and> own s' i = Some c \<and> raw c = v"
proof -
  have "\<exists>s' c. setCell h s i v = Inr s' \<and> own s' i = Some c \<and> raw c = v \<and>
          (\<lambda>(x :: jsval) (e :: string option). True) (val c) (error c)"
  proof (rule setCell_settles [where Ex = "\<lambda>_. True"])
    show "wellFormed s" using assms(1) by (rule reachable_wellFormed)
  qed (use assms in simp_all)
  then show ?thesis by simp
qed

lemma solid_below:
  assumes "ranked rank G s" "solid h G s D"
  shows "solid h G s {y \<in> D. rank y < n}"
  unfolding solid_def
proof (intro conjI ballI)
  show "{y \<in> D. rank y < n} \<subseteq> G" using assms(2) by (auto simp: solid_def)
next
  fix y r assume y: "y \<in> {y \<in> D. rank y < n}" and r: "r \<in> set (refsOf s y)"
  then have "y \<in> G" "y \<in> D" using assms(2) by (auto simp: solid_def)
  then have "r \<in> D" "rank r < rank y" using assms r by (auto simp: solid_def ranked_def)
  then show "r \<in> {y \<in> D. rank y < n}" using y by simp
next
  fix y assume "y \<in> {y \<in> D. rank y < n}"
  then show "consistent h s y" using assms(2) by (simp add: solid_def)
qed

text \<open>
  In a cycle-free part of a grid the program can reach, the expression that an
  evaluation checks at line 94 is the body with the values the cells hold already.
\<close>

lemma substituted_substFrom:
  assumes re: "reachable h s" and rk: "ranked rank G s" and i: "i \<in> G"
    and cell: "own s i = Some cell" and f: "startsWithEq (trim (raw cell))"
  shows "substituted h s i {} =
         substFrom h s (matchRefs (trim (raw cell))) (tl (trim (raw cell)))"
proof -
  let ?refs = "matchRefs (trim (raw cell))"
  let ?body = "tl (trim (raw cell))"
  define D where "D = {y \<in> G. rank y < rank i}"
  have solid: "solid h G s D"
    unfolding D_def using rk reachable_solid [OF re rk] by (rule solid_below)
  have refs: "set ?refs \<subseteq> D"
    using rk i refsOf_formula [OF cell f] by (auto simp: ranked_def D_def)
  have "rawAt (fst (fold (substStep h i {}) ?refs (fold (addEdge i) ?refs s, ?body))) = rawAt s \<and>
        (\<forall>x \<in> D. computed (fst (fold (substStep h i {}) ?refs (fold (addEdge i) ?refs s, ?body))) x
            = computed s x) \<and>
        (set ?refs \<subseteq> D \<longrightarrow>
           snd (fold (substStep h i {}) ?refs (fold (addEdge i) ?refs s, ?body))
             = substFrom h s ?refs ?body)"
  proof (rule loop_keeps_solid [OF rk solid])
    fix r a x assume a: "ranked rank G a" "solid h G a D" and x: "x \<in> D"
    have "{i} \<inter> D = {}" by (simp add: D_def)
    with a show "computed (evaluateCell h a r {i}) x = computed a x"
      using x by (rule evaluateCell_keeps_solid)
  qed (simp_all add: rawAt_fold_addEdge computed_fold_addEdge)
  then show ?thesis using refs cell by (simp add: substituted_def)
qed

section \<open>The identifiers of a grid\<close>

lemma set_keys_newSpreadsheet:
  "set (keys (newSpreadsheet c r)) =
     (\<lambda>(i, k). char_of (65 + i) # decimal k) ` ({0..<c} \<times> {1..r})"
proof -
  have gen: "(\<Union>i \<in> A. (\<lambda>k. f i k) ` B) = (\<lambda>(i, k). f i k) ` (A \<times> B)"
    for f :: "nat \<Rightarrow> nat \<Rightarrow> string" and A B
    by auto
  have "set [1..<Suc r] = {1..r}" by auto
  then have "set (keys (newSpreadsheet c r)) =
             (\<Union>i \<in> {0..<c}. (\<lambda>k. char_of (65 + i) # decimal k) ` {1..r})"
    by (simp add: keys_def newSpreadsheet_def Let_def map_concat comp_def image_image)
  then show ?thesis by (simp only: gen)
qed

lemma keys_size_5_5:
  assumes "set (keys (newSpreadsheet c r)) = allRefs"
  shows "c = 5 \<and> r = 5"
proof -
  have A1: "char_of (65 + (0::nat)) # decimal 1 = ''A1''" by code_simp
  have F1: "char_of (65 + (5::nat)) # decimal 1 = ''F1''" by code_simp
  have A6: "char_of (65 + (0::nat)) # decimal 6 = ''A6''" by code_simp
  have notF1: "''F1'' \<notin> allRefs" by (simp add: allRefs_def isColLetter_def)
  have notA6: "''A6'' \<notin> allRefs" by (simp add: allRefs_def isRowDigit_def)
  have inA1: "''A1'' \<in> allRefs" and inE5: "''E5'' \<in> allRefs"
    by (simp_all add: allRefs_def isColLetter_def isRowDigit_def)
  have cols: "\<forall>i \<in> set [0..<5]. char_of (65 + i) = CHR ''E'' \<longrightarrow> i = 4" by code_simp
  have rows: "\<forall>k \<in> set [1..<6]. decimal k = ''5'' \<longrightarrow> k = 5" by code_simp
  note keys = set_keys_newSpreadsheet [of c r]
  from inA1 assms have "''A1'' \<in> set (keys (newSpreadsheet c r))" by simp
  then have pos: "0 < c" "1 \<le> r" unfolding keys by auto
  have c5: "c \<le> 5"
  proof (rule ccontr)
    assume "\<not> c \<le> 5"
    then have "(5, 1) \<in> {0..<c} \<times> {1..r}" using pos by simp
    then have "''F1'' \<in> set (keys (newSpreadsheet c r))"
      unfolding keys using F1 by (metis (mono_tags, lifting) image_eqI case_prod_conv)
    then show False using assms notF1 by simp
  qed
  have r5: "r \<le> 5"
  proof (rule ccontr)
    assume "\<not> r \<le> 5"
    then have "(0, 6) \<in> {0..<c} \<times> {1..r}" using pos by simp
    then have "''A6'' \<in> set (keys (newSpreadsheet c r))"
      unfolding keys using A6 by (metis (mono_tags, lifting) image_eqI case_prod_conv)
    then show False using assms notA6 by simp
  qed
  from inE5 assms have "''E5'' \<in> set (keys (newSpreadsheet c r))" by simp
  then obtain i k where ik: "i < c" "1 \<le> k" "k \<le> r"
    "char_of (65 + i) = CHR ''E''" "decimal k = ''5''"
    unfolding keys by auto
  have "i \<in> set [0..<5]" "k \<in> set [1..<6]" using ik c5 r5 by simp_all
  then have "i = 4" "k = 5" using cols rows ik(4,5) by blast+
  then show ?thesis using ik c5 r5 by simp
qed

section \<open>Formulas with two operators\<close>

lemma replaceAll_skip:
  "p \<notin> set ds \<Longrightarrow> replaceAll (p # ps) rep (ds @ rest) = ds @ replaceAll (p # ps) rep rest"
  by (induction ds) auto

lemma replaceAll_here:
  "replaceAll [p, q] rep (p # q # rest) = rep @ replaceAll [p, q] rep rest"
  by simp

lemma replaceAll_none: "p \<notin> set ds \<Longrightarrow> replaceAll (p # ps) rep ds = ds"
  using replaceAll_skip [of p ds ps rep "[]"] by simp

lemma operator_chars:
  assumes "isOperator c"
  shows "\<not> isColLetter c" "\<not> isWhiteSpace c" "allowedChar c"
  using assms
  by (auto simp: isOperator_def isColLetter_def isWhiteSpace_def allowedChar_def)

lemma numeral_chars:
  assumes "c \<in> set (''('' @ decimal n @ '')'')"
  shows "\<not> isColLetter c" "allowedChar c"
proof -
  have c: "c = CHR ''('' \<or> c = CHR '')'' \<or> isDigit c"
    using assms decimal_digits [of c n] by auto
  then show "\<not> isColLetter c" by (auto simp: isColLetter_def isDigit_def)
  from c show "allowedChar c" by (auto simp: allowedChar_def)
qed

text \<open>The formula \<^verbatim>\<open>=A1\<close> \<open>o1\<close> \<^verbatim>\<open>B1\<close> \<open>o2\<close> \<^verbatim>\<open>C1\<close>.\<close>

definition twoOperators :: "char \<Rightarrow> char \<Rightarrow> string" where
  "twoOperators o1 o2 = ''=A1'' @ [o1] @ ''B1'' @ [o2] @ ''C1''"

lemma twoOperators_parsed:
  assumes "isOperator o1" "isOperator o2"
  shows "trim (twoOperators o1 o2) = twoOperators o1 o2"
    and "startsWithEq (twoOperators o1 o2)"
    and "matchRefs (twoOperators o1 o2) = [''A1'', ''B1'', ''C1'']"
proof -
  have ws: "\<not> isWhiteSpace CHR ''=''" "\<not> isWhiteSpace CHR ''1''" by code_simp+
  show "trim (twoOperators o1 o2) = twoOperators o1 o2"
    by (simp add: trim_def twoOperators_def ws)
  show "startsWithEq (twoOperators o1 o2)"
    by (simp add: startsWithEq_def twoOperators_def)
  have cl: "\<not> isColLetter CHR ''=''" "isColLetter CHR ''A''" "isColLetter CHR ''B''"
    "isColLetter CHR ''C''" "isRowDigit CHR ''1''" by code_simp+
  show "matchRefs (twoOperators o1 o2) = [''A1'', ''B1'', ''C1'']"
    using operator_chars(1) [OF assms(1)] operator_chars(1) [OF assms(2)]
    by (simp add: twoOperators_def cl)
qed

lemma substFrom_twoOperators:
  assumes o: "isOperator o1" "isOperator o2"
    and v: "refValue s ''A1'' = Num (Fin (of_nat x))" "refValue s ''B1'' = Num (Fin (of_nat y))"
      "refValue s ''C1'' = Num (Fin (of_nat z))"
  shows "substFrom refHost s [''A1'', ''B1'', ''C1''] (tl (twoOperators o1 o2)) =
         ''('' @ decimal x @ '')'' @ [o1] @ ''('' @ decimal y @ '')'' @ [o2] @
         ''('' @ decimal z @ '')''"
proof -
  define X where "X = ''('' @ decimal x @ '')''"
  define Y where "Y = ''('' @ decimal y @ '')''"
  define Z where "Z = ''('' @ decimal z @ '')''"
  have t: "toStr refHost (coerce refHost (Num (Fin (of_nat n)))) = decimal n" for n
    by (simp add: coerce_def toStr_def numToString_def refHost_def finToStringRef_nat)
  have ops: "o1 \<noteq> CHR ''A''" "o1 \<noteq> CHR ''B''" "o1 \<noteq> CHR ''C''"
    "o2 \<noteq> CHR ''A''" "o2 \<noteq> CHR ''B''" "o2 \<noteq> CHR ''C''"
    using operator_chars(1) [OF o(1)] operator_chars(1) [OF o(2)]
    by (auto simp: isColLetter_def)
  have nX: "CHR ''B'' \<notin> set X" "CHR ''C'' \<notin> set X" and nY: "CHR ''C'' \<notin> set Y"
    using numeral_chars(1) unfolding X_def Y_def by (auto simp: isColLetter_def)
  have "replaceAll ''A1'' X (CHR ''A'' # CHR ''1'' # [o1] @ ''B1'' @ [o2] @ ''C1'') =
        X @ replaceAll ''A1'' X ([o1] @ ''B1'' @ [o2] @ ''C1'')"
    by (rule replaceAll_here)
  also have "replaceAll ''A1'' X ([o1] @ ''B1'' @ [o2] @ ''C1'') = [o1] @ ''B1'' @ [o2] @ ''C1''"
    using ops by (intro replaceAll_none) simp
  finally have 1: "replaceAll ''A1'' X (''A1'' @ [o1] @ ''B1'' @ [o2] @ ''C1'') =
           X @ [o1] @ ''B1'' @ [o2] @ ''C1''" by simp
  have "replaceAll ''B1'' Y ((X @ [o1]) @ ''B1'' @ [o2] @ ''C1'') =
        (X @ [o1]) @ replaceAll ''B1'' Y (''B1'' @ [o2] @ ''C1'')"
    using nX ops by (intro replaceAll_skip) simp
  also have "replaceAll ''B1'' Y (''B1'' @ [o2] @ ''C1'') =
             Y @ replaceAll ''B1'' Y ([o2] @ ''C1'')"
    using replaceAll_here [of "CHR ''B''" "CHR ''1''" Y "[o2] @ ''C1''"] by simp
  also have "replaceAll ''B1'' Y ([o2] @ ''C1'') = [o2] @ ''C1''"
    using ops by (intro replaceAll_none) simp
  finally have 2: "replaceAll ''B1'' Y (X @ [o1] @ ''B1'' @ [o2] @ ''C1'') =
        X @ [o1] @ Y @ [o2] @ ''C1''" by simp
  have "replaceAll ''C1'' Z ((X @ [o1] @ Y @ [o2]) @ ''C1'') =
        (X @ [o1] @ Y @ [o2]) @ replaceAll ''C1'' Z ''C1''"
    using nX nY ops by (intro replaceAll_skip) simp
  then have 3: "replaceAll ''C1'' Z (X @ [o1] @ Y @ [o2] @ ''C1'') = X @ [o1] @ Y @ [o2] @ Z"
    by simp
  have "substFrom refHost s [''A1'', ''B1'', ''C1''] (''A1'' @ [o1] @ ''B1'' @ [o2] @ ''C1'') =
        X @ [o1] @ Y @ [o2] @ Z"
    unfolding substFrom_def fold_simps v t
    using 1 2 3 by (simp add: X_def Y_def Z_def del: replaceAll.simps)
  then show ?thesis by (simp add: twoOperators_def X_def Y_def Z_def)
qed

lemma validExpr_parenthesised:
  assumes "isOperator o1" "isOperator o2"
  shows "validExpr (''('' @ decimal x @ '')'' @ [o1] @ ''('' @ decimal y @ '')'' @ [o2] @
                    ''('' @ decimal z @ '')'')"
proof -
  have "list_all allowedChar (''('' @ decimal n @ '')'')" for n
    using numeral_chars(2) [of _ n] by (simp only: list_all_iff) blast
  then show ?thesis
    using operator_chars(3) [OF assms(1)] operator_chars(3) [OF assms(2)]
    by (simp add: validExpr_def)
qed

text \<open>
  The standard reading, on integers: the operator that binds tighter first, the left
  one first when neither does; a division counts when it leaves no remainder.
\<close>

definition exactOperator :: "char \<Rightarrow> int \<Rightarrow> int \<Rightarrow> int option" where
  "exactOperator c a b =
     (if c = CHR ''+'' then Some (a + b) else if c = CHR ''-'' then Some (a - b)
      else if c = CHR ''*'' then Some (a * b)
      else if b \<noteq> 0 \<and> b dvd a then Some (a div b) else None)"

definition standardValue :: "char \<Rightarrow> char \<Rightarrow> int \<Rightarrow> int \<Rightarrow> int \<Rightarrow> int option" where
  "standardValue o1 o2 x y z =
     (if tighter o2 \<and> \<not> tighter o1
      then (case exactOperator o2 y z of None \<Rightarrow> None | Some w \<Rightarrow> exactOperator o1 x w)
      else (case exactOperator o1 x y of None \<Rightarrow> None | Some w \<Rightarrow> exactOperator o2 w z))"

lemma applyOperator_exact:
  "exactOperator c a b = Some v \<Longrightarrow>
     applyOperator c (Fin (of_int a)) (Fin (of_int b)) = Fin (of_int v)"
  by (auto simp: exactOperator_def applyOperator_def of_int_div split: if_splits)

lemma standardValue_applied:
  assumes "standardValue o1 o2 x y z = Some v"
  shows "(if tighter o2 \<and> \<not> tighter o1
          then applyOperator o1 (Fin (of_int x)) (applyOperator o2 (Fin (of_int y)) (Fin (of_int z)))
          else applyOperator o2 (applyOperator o1 (Fin (of_int x)) (Fin (of_int y))) (Fin (of_int z)))
         = Fin (of_int v)"
proof (cases "tighter o2 \<and> \<not> tighter o1")
  case True
  then obtain w where "exactOperator o2 y z = Some w" "exactOperator o1 x w = Some v"
    using assms by (auto simp: standardValue_def split: option.splits)
  then show ?thesis unfolding if_P [OF True] by (simp add: applyOperator_exact)
next
  case False
  then obtain w where "exactOperator o1 x y = Some w" "exactOperator o2 w z = Some v"
    using assms by (auto simp: standardValue_def split: option.splits)
  then show ?thesis unfolding if_not_P [OF False] by (simp add: applyOperator_exact)
qed

section \<open>Formulas with two operators in the program\<close>

lemma setCell_rawAt:
  assumes wf: "wellFormed s" and i: "own s i = Some cell" and set: "setCell h s i v = Inr s'"
  shows "rawAt s' k = (if k = i then Some v else rawAt s k)"
proof -
  from setCell_wellFormed [OF wf i, of h v] set
  have "shape s' = shape (evaluateCell h (prepared i v cell s) i {})" by auto
  then have "rawAt s' = rawAt (prepared i v cell s)"
    using rawAt_shape rawAt_evaluateCell by metis
  then show ?thesis
    using i by (cases "own s k") (auto simp: rawAt_def own_prepared)
qed

text \<open>
  A cell whose raw text has no reference holds the same value on every grid the
  program can reach on which it has that raw text.
\<close>

lemma value_without_references:
  assumes "reachable h s" "reachable h s'" "rawAt s' k = rawAt s k" "refsOf s k = []"
  shows "refValue s' k = refValue s k"
proof (cases "own s k")
  case None
  then have "own s' k = None" using assms(3) by (simp add: rawAt_def)
  with None show ?thesis by (simp add: refValue_def)
next
  case (Some c)
  then obtain c' where c': "own s' k = Some c'" "raw c' = raw c"
    using assms(3) by (auto simp: rawAt_def)
  have nr: "formulaRefs (raw c) = []" using assms(4) Some by (simp add: refsOf_def)
  have "refsOf s' k = []" using c' nr by (simp add: refsOf_def)
  then have "ranked (\<lambda>_. 0) {k} s'" "ranked (\<lambda>_. 0) {k} s"
    using assms(4) by (simp_all add: ranked_def)
  then have "consistent h s' k" "consistent h s k"
    using assms(1,2) reachable_consistent by blast+
  then have "(val c', error c') = expected h s' (raw c)" "(val c, error c) = expected h s (raw c)"
    using Some c' by (simp_all add: consistent_def)
  moreover have "expected h s' (raw c) = expected h s (raw c)"
    using nr by (intro expected_cong) simp
  ultimately have "(val c', error c') = (val c, error c)" by simp
  then show ?thesis using Some c' by (simp add: refValue_def)
qed

lemma twoOperators_setCell:
  assumes re: "reachable refHost s" and d: "own s ''D1'' \<noteq> None"
    and o: "isOperator o1" "isOperator o2"
    and a: "getCell s ''A1'' = Num (Fin (of_nat x))" "refsOf s ''A1'' = []"
    and b: "getCell s ''B1'' = Num (Fin (of_nat y))" "refsOf s ''B1'' = []"
    and c: "getCell s ''C1'' = Num (Fin (of_nat z))" "refsOf s ''C1'' = []"
  shows "\<exists>s'. setCell refHost s ''D1'' (twoOperators o1 o2) = Inr s' \<and>
           getCell s' ''D1'' =
             Num (if tighter o2 \<and> \<not> tighter o1
                  then applyOperator o1 (Fin (of_nat x))
                         (applyOperator o2 (Fin (of_nat y)) (Fin (of_nat z)))
                  else applyOperator o2
                         (applyOperator o1 (Fin (of_nat x)) (Fin (of_nat y))) (Fin (of_nat z))) \<and>
           errorOf s' ''D1'' = None"
proof -
  let ?F = "twoOperators o1 o2"
  let ?R = "if tighter o2 \<and> \<not> tighter o1
            then applyOperator o1 (Fin (of_nat x))
                   (applyOperator o2 (Fin (of_nat y)) (Fin (of_nat z)))
            else applyOperator o2
                   (applyOperator o1 (Fin (of_nat x)) (Fin (of_nat y))) (Fin (of_nat z))"
  note parsed = twoOperators_parsed [OF o]
  from d obtain cell where cell: "own s ''D1'' = Some cell" by auto
  from setCell_returns [OF re d, of ?F] obtain s' cd where
    s': "setCell refHost s ''D1'' ?F = Inr s'" "own s' ''D1'' = Some cd" "raw cd = ?F" by blast
  have re': "reachable refHost s'" using re s'(1) by (rule reachable.set)
  note raw = setCell_rawAt [OF reachable_wellFormed [OF re] cell s'(1)]
  have va: "refValue s' ''A1'' = Num (Fin (of_nat x))"
    using value_without_references [OF re re' _ a(2)] raw [of "''A1''"] a(1)
    by (simp add: getCell_refValue)
  have vb: "refValue s' ''B1'' = Num (Fin (of_nat y))"
    using value_without_references [OF re re' _ b(2)] raw [of "''B1''"] b(1)
    by (simp add: getCell_refValue)
  have vc: "refValue s' ''C1'' = Num (Fin (of_nat z))"
    using value_without_references [OF re re' _ c(2)] raw [of "''C1''"] c(1)
    by (simp add: getCell_refValue)
  have ra: "refsOf s' ''A1'' = []" "refsOf s' ''B1'' = []" "refsOf s' ''C1'' = []"
    using a(2) b(2) c(2) raw [of "''A1''"] raw [of "''B1''"] raw [of "''C1''"]
    by (simp_all add: refsOf_rawAt)
  have rd: "refsOf s' ''D1'' = [''A1'', ''B1'', ''C1'']"
    using s'(2,3) parsed by (simp add: refsOf_def formulaRefs_def)
  have "ranked (\<lambda>k. if k = ''D1'' then 1 else 0) {''A1'', ''B1'', ''C1'', ''D1''} s'"
    by (simp add: ranked_def ra rd)
  then have "consistent refHost s' ''D1''"
    using reachable_consistent [OF re'] by blast
  then have "(val cd, error cd) = expected refHost s' ?F"
    using s'(2,3) by (simp add: consistent_def)
  moreover have "expected refHost s' ?F = (Num ?R, None)"
  proof -
    define e where "e = ''('' @ decimal x @ '')'' @ [o1] @ ''('' @ decimal y @ '')'' @ [o2] @
         ''('' @ decimal z @ '')''"
    have sub: "substFrom refHost s' (matchRefs (trim ?F)) (tl (trim ?F)) = e"
      unfolding parsed(1) parsed(3) e_def using o va vb vc by (rule substFrom_twoOperators)
    have ve: "validExpr e" unfolding e_def using o by (rule validExpr_parenthesised)
    have "runRef e = Inr (Num ?R)" unfolding e_def using o by (rule runRef_parenthesised)
    then have ru: "run refHost e = Inr (Num ?R)" by (simp add: refHost_def)
    have st: "startsWithEq (trim ?F)" using parsed(1,2) by simp
    show ?thesis by (simp add: expected_def st sub ve ru)
  qed
  ultimately show ?thesis
    using s'(1,2) by (auto simp: getCell_own errorOf_own)
qed

section \<open>The claims\<close>

text \<open>
  C1 (cycle containment). Setting A1 to \<^verbatim>\<open>=B1\<close> and then B1 to \<^verbatim>\<open>=A1\<close> on the five by
  five grid returns from both calls (every function of the model is total), but leaves
  neither cell with the circular-reference sentinel: the sentinel written at line 55 is
  overwritten when the frame of the same cell further up the stack reaches line 96, so
  both cells end with the number 0 and no error.
\<close>

theorem C1_cycle_leaves_no_sentinel:
  "map_sum id (\<lambda>s. (getCell s ''A1'', errorOf s ''A1'', getCell s ''B1'', errorOf s ''B1''))
     (setCells refHost (newSpreadsheet 5 5) [(''A1'', ''=B1''), (''B1'', ''=A1'')])
   = Inr (Num (Fin 0), None, Num (Fin 0), None)"
  by code_simp

text \<open>
  C2 (propagation completeness). As stated, the claim fails on a reference cycle: after
  A1 is set to \<^verbatim>\<open>=B1+1\<close> and B1 to \<^verbatim>\<open>=A1+1\<close>, the cell A1 is a dependent of B1, B1
  holds 2, and A1 holds 1 while its formula gives 3 from the value of B1.
\<close>

theorem C2_counterexample:
  "map_sum id
     (\<lambda>s. (map_option dependents (own s ''B1''), getCell s ''B1'', map_option raw (own s ''A1''),
            getCell s ''A1'', expected refHost s ''=B1+1'', consistent refHost s ''A1''))
     (setCells refHost (newSpreadsheet 5 5) [(''A1'', ''=B1+1''), (''B1'', ''=A1+1'')])
   = Inr (Some [''A1''], Num (Fin 2), Some ''=B1+1'', Num (Fin 1), (Num (Fin 3), None), False)"
  by code_simp

text \<open>
  C2, amended. On a grid the program can reach, \<^verbatim>\<open>setCell\<close> of an existing cell \<open>a\<close>
  returns, \<open>a\<close> has the new raw text, and every cell \<open>c\<close> of a part of the grid with
  no reference cycle in it (a set \<open>G\<close> closed under references, along which \<open>rank\<close>
  goes down) is consistent: its value and its error are what its raw text yields
  from the values its dependencies hold when the call returns. The dependents of \<open>a\<close>,
  direct or not, whose dependencies have no cycle among them are such cells, so they
  reflect the new value of \<open>a\<close>.
\<close>

theorem C2_propagation_without_cycles:
  assumes "reachable h s" and "own s a \<noteq> None"
  shows "\<exists>s'. setCell h s a v = Inr s' \<and> rawAt s' a = Some v \<and>
           (\<forall>rank G c. ranked rank G s' \<and> c \<in> G \<longrightarrow> consistent h s' c)"
proof -
  from setCell_returns [OF assms, of v] obtain s' c where
    s': "setCell h s a v = Inr s'" "own s' a = Some c" "raw c = v" by blast
  have "reachable h s'" using assms(1) s'(1) by (rule reachable.set)
  then have "\<forall>rank G c. ranked rank G s' \<and> c \<in> G \<longrightarrow> consistent h s' c"
    using reachable_consistent by blast
  then show ?thesis using s' by (simp add: rawAt_def)
qed

theorem C2_propagation_without_cycles_witness:
  "getCell (projr (setCell refHost
      (projr (setCells refHost (newSpreadsheet 5 5) [(''A1'', ''1''), (''B1'', ''=A1+1'')]))
      ''A1'' ''10'')) ''B1'' = Num (Fin 11) \<and>
   getCell (projr (setCells refHost (newSpreadsheet 5 5) [(''A1'', ''1''), (''B1'', ''=A1+1'')]))
      ''B1'' = Num (Fin 2) \<and>
   consistent refHost (projr (setCell refHost
      (projr (setCells refHost (newSpreadsheet 5 5) [(''A1'', ''1''), (''B1'', ''=A1+1'')]))
      ''A1'' ''10'')) ''B1''"
proof -
  define r where "r = setCells refHost (newSpreadsheet 5 5) [(''A1'', ''1''), (''B1'', ''=A1+1'')]"
  define t where "t = projr (setCell refHost (projr r) ''A1'' ''10'')"
  have "\<not> isl r" unfolding r_def by code_simp
  then have "r = Inr (projr r)" by simp
  from reachable_setCells [OF reachable.constructed this [unfolded r_def]]
  have re: "reachable refHost (projr r)" unfolding r_def .
  have o: "own (projr r) ''A1'' \<noteq> None" unfolding r_def by code_simp
  from C2_propagation_without_cycles [OF re o, of "''10''"] obtain s' where
    s': "setCell refHost (projr r) ''A1'' ''10'' = Inr s'" and
    all: "\<And>rank G c. ranked rank G s' \<Longrightarrow> c \<in> G \<Longrightarrow> consistent refHost s' c"
    by blast
  have ts: "t = s'" using s' by (simp add: t_def)
  have rf: "refsOf t ''A1'' = []" "refsOf t ''B1'' = [''A1'']"
    unfolding t_def r_def by code_simp+
  have "ranked (\<lambda>k. if k = ''B1'' then 1 else 0) {''A1'', ''B1''} t"
    by (simp add: ranked_def rf)
  then have 1: "consistent refHost t ''B1''" using all unfolding ts by blast
  have 2: "getCell t ''B1'' = Num (Fin 11)" unfolding t_def r_def by code_simp
  have 3: "getCell (projr r) ''B1'' = Num (Fin 2)" unfolding r_def by code_simp
  from 1 2 3 show ?thesis unfolding t_def r_def by blast
qed

text \<open>
  C3 (mutual edges). On every grid the program can reach, that is after the
  constructor and after every call of \<^verbatim>\<open>setCell\<close> that has returned, a cell \<open>b\<close> is
  among the dependencies of a cell \<open>a\<close> exactly when \<open>a\<close> is among the dependents of \<open>b\<close>.
\<close>

theorem C3_mutual_edges: "reachable h s \<Longrightarrow> mutualEdges s"
  by (simp add: reachable_wellFormed wellFormed_mutualEdges)

theorem C3_mutual_edges_witness:
  "mutualEdges (projr (setCells refHost (newSpreadsheet 5 5)
      [(''A1'', ''=B1+C1''), (''B1'', ''=C1'')])) \<and>
   map_option dependencies (own (projr (setCells refHost (newSpreadsheet 5 5)
      [(''A1'', ''=B1+C1''), (''B1'', ''=C1'')])) ''A1'') = Some [''B1'', ''C1''] \<and>
   map_option dependents (own (projr (setCells refHost (newSpreadsheet 5 5)
      [(''A1'', ''=B1+C1''), (''B1'', ''=C1'')])) ''C1'') = Some [''A1'', ''B1'']"
proof -
  let ?r = "setCells refHost (newSpreadsheet 5 5) [(''A1'', ''=B1+C1''), (''B1'', ''=C1'')]"
  have "\<not> isl ?r" by code_simp
  then have "?r = Inr (projr ?r)" by simp
  from reachable_setCells [OF reachable.constructed this]
  have "mutualEdges (projr ?r)" by (rule C3_mutual_edges)
  moreover have "map_option dependencies (own (projr ?r) ''A1'') = Some [''B1'', ''C1'']"
    by code_simp
  moreover have "map_option dependents (own (projr ?r) ''C1'') = Some [''A1'', ''B1'']"
    by code_simp
  ultimately show ?thesis by blast
qed

text \<open>
  C4 (literal parsing). On a grid the program can reach, \<^verbatim>\<open>setCell\<close> of an existing
  cell with a text that, trimmed, does not start with \<^verbatim>\<open>=\<close> returns and leaves the cell
  with no error and with the value: the empty string when the trimmed text is empty,
  the number \<^verbatim>\<open>Number(text)\<close> when that is not \<^verbatim>\<open>NaN\<close>, the trimmed text otherwise.
\<close>

theorem C4_literal_values:
  assumes "reachable h s" and "own s i \<noteq> None" and "\<not> startsWithEq (trim v)"
  shows "\<exists>s'. setCell h s i v = Inr s' \<and>
           getCell s' i =
             (if trim v = [] then Str []
              else if toNumber h (trim v) = NaN then Str (trim v)
              else Num (toNumber h (trim v))) \<and>
           errorOf s' i = None"
  using literal_setCell [OF assms] by (auto simp: literal_def)

theorem C4_literal_values_witness:
  "(\<exists>s'. setCell refHost (newSpreadsheet 5 5) ''A1'' ''42'' = Inr s' \<and>
          getCell s' ''A1'' = Num (Fin 42) \<and> errorOf s' ''A1'' = None) \<and>
   (\<exists>s'. setCell refHost (newSpreadsheet 5 5) ''A1'' [] = Inr s' \<and>
          getCell s' ''A1'' = Str [] \<and> errorOf s' ''A1'' = None) \<and>
   (\<exists>s'. setCell refHost (newSpreadsheet 5 5) ''A1'' ''hello'' = Inr s' \<and>
          getCell s' ''A1'' = Str ''hello'' \<and> errorOf s' ''A1'' = None)"
proof -
  have o: "own (newSpreadsheet 5 5) ''A1'' \<noteq> None" by code_simp
  have r: "reachable refHost (newSpreadsheet 5 5)" by (rule reachable.constructed)
  have a: "\<not> startsWithEq (trim ''42'')" "trim ''42'' = ''42''"
    "toNumber refHost ''42'' = Fin 42" by code_simp+
  have b: "\<not> startsWithEq (trim [])" "trim [] = []" by code_simp+
  have c: "\<not> startsWithEq (trim ''hello'')" "trim ''hello'' = ''hello''"
    "toNumber refHost ''hello'' = NaN" by code_simp+
  show ?thesis
    using C4_literal_values [OF r o a(1)] C4_literal_values [OF r o b(1)]
      C4_literal_values [OF r o c(1)]
    by (simp add: a b c)
qed

text \<open>
  C5 (arithmetic). The program hands the substituted expression to the engine (line
  96); the reference host stands for the engine, and computes as it does on integers
  of this size. On a grid the program can reach, let the cells A1, B1 and C1 hold the
  natural numbers \<open>x\<close>, \<open>y\<close> and \<open>z\<close> below \<open>2^17\<close>, by raw texts without references.
  For any two operators \<open>o1\<close> and \<open>o2\<close> among \<^verbatim>\<open>+ - * /\<close>, \<^verbatim>\<open>setCell\<close> of D1 with the
  formula \<^verbatim>\<open>=A1\<close> \<open>o1\<close> \<^verbatim>\<open>B1\<close> \<open>o2\<close> \<^verbatim>\<open>C1\<close> returns and leaves D1 with no error and with
  the value of the standard reading: \<open>o2\<close> is applied first when it is \<^verbatim>\<open>*\<close> or \<^verbatim>\<open>/\<close>
  and \<open>o1\<close> is \<^verbatim>\<open>+\<close> or \<^verbatim>\<open>-\<close>, and \<open>o1\<close> is applied first otherwise (every division
  leaving no remainder).
\<close>

theorem C5_precedence_and_associativity:
  assumes "reachable refHost s" and "own s ''D1'' \<noteq> None"
    and "isOperator o1" and "isOperator o2"
    and "getCell s ''A1'' = Num (Fin (of_nat x))" and "refsOf s ''A1'' = []" and "x < 2 ^ 17"
    and "getCell s ''B1'' = Num (Fin (of_nat y))" and "refsOf s ''B1'' = []" and "y < 2 ^ 17"
    and "getCell s ''C1'' = Num (Fin (of_nat z))" and "refsOf s ''C1'' = []" and "z < 2 ^ 17"
    and "standardValue o1 o2 (int x) (int y) (int z) = Some v"
  shows "\<exists>s'. setCell refHost s ''D1'' (twoOperators o1 o2) = Inr s' \<and>
           getCell s' ''D1'' = Num (Fin (of_int v)) \<and> errorOf s' ''D1'' = None"
proof -
  have "(if tighter o2 \<and> \<not> tighter o1
          then applyOperator o1 (Fin (of_nat x)) (applyOperator o2 (Fin (of_nat y)) (Fin (of_nat z)))
          else applyOperator o2 (applyOperator o1 (Fin (of_nat x)) (Fin (of_nat y))) (Fin (of_nat z)))
        = Fin (of_int v)"
    using standardValue_applied [OF assms(14)] unfolding of_int_of_nat_eq .
  then show ?thesis
    using twoOperators_setCell [OF assms(1-6) assms(8,9) assms(11,12)] by (simp only:)
qed

theorem C5_precedence_and_associativity_witness:
  "getCell (projr (setCell refHost
      (projr (setCells refHost (newSpreadsheet 5 5) [(''A1'', ''5''), (''B1'', ''3''), (''C1'', ''2'')]))
      ''D1'' ''=A1*B1+C1'')) ''D1'' = Num (Fin 17) \<and>
   getCell (projr (setCell refHost
      (projr (setCells refHost (newSpreadsheet 5 5) [(''A1'', ''5''), (''B1'', ''3''), (''C1'', ''2'')]))
      ''D1'' ''=A1+B1*C1'')) ''D1'' = Num (Fin 11) \<and>
   getCell (projr (setCell refHost
      (projr (setCells refHost (newSpreadsheet 5 5) [(''A1'', ''5''), (''B1'', ''3''), (''C1'', ''2'')]))
      ''D1'' ''=A1-B1-C1'')) ''D1'' = Num (Fin 0) \<and>
   map_sum id (\<lambda>s. (getCell s ''C1'', errorOf s ''C1''))
     (setCells refHost (newSpreadsheet 5 5)
        [(''A1'', ''5''), (''B1'', ''3''), (''C1'', ''=A1*B1+2'')]) = Inr (Num (Fin 17), None)"
proof -
  define s where "s = projr (setCells refHost (newSpreadsheet 5 5)
      [(''A1'', ''5''), (''B1'', ''3''), (''C1'', ''2'')])"
  have "\<not> isl (setCells refHost (newSpreadsheet 5 5)
      [(''A1'', ''5''), (''B1'', ''3''), (''C1'', ''2'')])" by code_simp
  then have "setCells refHost (newSpreadsheet 5 5)
      [(''A1'', ''5''), (''B1'', ''3''), (''C1'', ''2'')] = Inr s"
    unfolding s_def by (rule sum.collapse(2) [symmetric])
  from reachable_setCells [OF reachable.constructed this]
  have re: "reachable refHost s" .
  have d: "own s ''D1'' \<noteq> None" unfolding s_def by code_simp
  have a: "getCell s ''A1'' = Num (Fin (of_nat 5))" "refsOf s ''A1'' = []"
    and b: "getCell s ''B1'' = Num (Fin (of_nat 3))" "refsOf s ''B1'' = []"
    and c: "getCell s ''C1'' = Num (Fin (of_nat 2))" "refsOf s ''C1'' = []"
    unfolding s_def by code_simp+
  have o: "isOperator CHR ''*''" "isOperator CHR ''+''" "isOperator CHR ''-''"
    by (simp_all add: isOperator_def)
  have f: "twoOperators CHR ''*'' CHR ''+'' = ''=A1*B1+C1''"
    "twoOperators CHR ''+'' CHR ''*'' = ''=A1+B1*C1''"
    "twoOperators CHR ''-'' CHR ''-'' = ''=A1-B1-C1''"
    by (simp_all add: twoOperators_def)
  have v: "standardValue CHR ''*'' CHR ''+'' (int 5) (int 3) (int 2) = Some 17"
    "standardValue CHR ''+'' CHR ''*'' (int 5) (int 3) (int 2) = Some 11"
    "standardValue CHR ''-'' CHR ''-'' (int 5) (int 3) (int 2) = Some 0"
    by (simp_all add: standardValue_def exactOperator_def tighter_def)
  have 1: "getCell (projr (setCell refHost s ''D1'' ''=A1*B1+C1'')) ''D1'' = Num (Fin 17)"
    using C5_precedence_and_associativity [OF re d o(1) o(2) a _ b _ c _ v(1)]
    by (auto simp: f)
  have 2: "getCell (projr (setCell refHost s ''D1'' ''=A1+B1*C1'')) ''D1'' = Num (Fin 11)"
    using C5_precedence_and_associativity [OF re d o(2) o(1) a _ b _ c _ v(2)]
    by (auto simp: f)
  have 3: "getCell (projr (setCell refHost s ''D1'' ''=A1-B1-C1'')) ''D1'' = Num (Fin 0)"
    using C5_precedence_and_associativity [OF re d o(3) o(3) a _ b _ c _ v(3)]
    by (auto simp: f)
  have 4: "map_sum id (\<lambda>s. (getCell s ''C1'', errorOf s ''C1''))
     (setCells refHost (newSpreadsheet 5 5)
        [(''A1'', ''5''), (''B1'', ''3''), (''C1'', ''=A1*B1+2'')]) = Inr (Num (Fin 17), None)"
    by code_simp
  from 1 2 3 4 show ?thesis unfolding s_def by blast
qed

text \<open>
  C6 (invalid formulas). As stated, the claim fails on a reference cycle: with B1 set
  to \<^verbatim>\<open>=1/A1+C1\<close> and C1 to \<^verbatim>\<open>=A1\<close>, the call that sets A1 to \<^verbatim>\<open>=B1+1\<close> checks the
  expression \<^verbatim>\<open>(Infinity)+1\<close> at line 94 and writes the sentinel, but the sweep over the
  dependents evaluates A1 again, and the call leaves A1 with the value 1 and no error.
\<close>

theorem C6_counterexample:
  "map_sum id
     (\<lambda>s. (substituted refHost (prepared ''A1'' ''=B1+1'' (the (own s ''A1'')) s) ''A1'' {},
            validExpr ''(Infinity)+1'',
            map_sum id (\<lambda>s'. (getCell s' ''A1'', errorOf s' ''A1''))
              (setCell refHost s ''A1'' ''=B1+1'')))
     (setCells refHost (newSpreadsheet 5 5) [(''B1'', ''=1/A1+C1''), (''C1'', ''=A1'')])
   = Inr (''(Infinity)+1'', False, Inr (Num (Fin 1), None))"
  by code_simp

text \<open>
  C6, amended. On a grid the program can reach, \<^verbatim>\<open>setCell\<close> of an existing cell with a
  formula returns, with no exception, and leaves the cell with the generic-error
  sentinel and the message \<^verbatim>\<open>Invalid formula\<close> in two cases: when the body of the
  formula has a character outside digits, white space, parentheses, the point and the
  four operators that is not the letter of a reference (as in \<^verbatim>\<open>=DROP TABLE\<close>); and
  when the cell is in a part of the resulting grid with no reference cycle in it and
  the body, each reference replaced by the parenthesised value its cell holds when the
  call returns, has such a character or is empty.
\<close>

theorem C6_invalid_formula_sentinel:
  assumes "reachable h g" and "own g j \<noteq> None" and "startsWithEq (trim v)"
  shows "\<exists>g'. setCell h g j v = Inr g' \<and>
           (freeBad (tl (trim v)) \<longrightarrow>
              getCell g' j = Str ''#ERR'' \<and> errorOf g' j = Some ''Invalid formula'') \<and>
           (\<forall>rank G. ranked rank G g' \<and> j \<in> G \<and>
                \<not> validExpr (substFrom h g' (matchRefs (trim v)) (tl (trim v))) \<longrightarrow>
              getCell g' j = Str ''#ERR'' \<and> errorOf g' j = Some ''Invalid formula'')"
proof -
  from setCell_returns [OF assms(1,2), of v] obtain g' c where
    g': "setCell h g j v = Inr g'" "own g' j = Some c" "raw c = v" by blast
  have re: "reachable h g'" using assms(1) g'(1) by (rule reachable.set)
  have "getCell g' j = Str ''#ERR'' \<and> errorOf g' j = Some ''Invalid formula''"
    if "freeBad (tl (trim v))"
    using invalid_formula_setCell [OF assms that] g'(1) by auto
  moreover have "getCell g' j = Str ''#ERR'' \<and> errorOf g' j = Some ''Invalid formula''"
    if "ranked rank G g'" "j \<in> G"
      "\<not> validExpr (substFrom h g' (matchRefs (trim v)) (tl (trim v)))" for rank G
  proof (rule consistent_invalid [OF _ g'(2)])
    show "consistent h g' j" using re that(1,2) by (rule reachable_consistent)
  qed (use that(3) assms(3) g'(3) in simp_all)
  ultimately show ?thesis using g'(1) by blast
qed

theorem C6_invalid_formula_sentinel_witness:
  "getCell (projr (setCell refHost (newSpreadsheet 5 5) ''A1'' ''=DROP TABLE'')) ''A1''
     = Str ''#ERR'' \<and>
   errorOf (projr (setCell refHost (newSpreadsheet 5 5) ''A1'' ''=DROP TABLE'')) ''A1''
     = Some ''Invalid formula'' \<and>
   getCell (projr (setCell refHost
      (projr (setCells refHost (newSpreadsheet 5 5) [(''A1'', ''=1/0'')])) ''B1'' ''=A1+1'')) ''B1''
     = Str ''#ERR''"
proof -
  have r0: "reachable refHost (newSpreadsheet 5 5)" by (rule reachable.constructed)
  have o0: "own (newSpreadsheet 5 5) ''A1'' \<noteq> None" by code_simp
  have f0: "startsWithEq (trim ''=DROP TABLE'')" by code_simp
  have t: "tl (trim ''=DROP TABLE'') = [] @ CHR ''D'' # ''ROP TABLE''" by code_simp
  have "\<not> allowedChar CHR ''D''" by code_simp
  moreover have "\<not> isRowDigit (hd ''ROP TABLE'')" by code_simp
  ultimately have fb: "freeBad (tl (trim ''=DROP TABLE''))"
    unfolding freeBad_def t by blast
  from C6_invalid_formula_sentinel [OF r0 o0 f0] fb
  have 1: "getCell (projr (setCell refHost (newSpreadsheet 5 5) ''A1'' ''=DROP TABLE'')) ''A1''
             = Str ''#ERR'' \<and>
           errorOf (projr (setCell refHost (newSpreadsheet 5 5) ''A1'' ''=DROP TABLE'')) ''A1''
             = Some ''Invalid formula''"
    by auto
  define r where "r = setCells refHost (newSpreadsheet 5 5) [(''A1'', ''=1/0'')]"
  define t where "t = projr (setCell refHost (projr r) ''B1'' ''=A1+1'')"
  have "\<not> isl r" unfolding r_def by code_simp
  then have "r = Inr (projr r)" by simp
  from reachable_setCells [OF reachable.constructed this [unfolded r_def]]
  have r1: "reachable refHost (projr r)" unfolding r_def .
  have o1: "own (projr r) ''B1'' \<noteq> None" unfolding r_def by code_simp
  have f1: "startsWithEq (trim ''=A1+1'')" by code_simp
  from C6_invalid_formula_sentinel [OF r1 o1 f1] obtain g' where
    g': "setCell refHost (projr r) ''B1'' ''=A1+1'' = Inr g'" and
    all: "\<And>rank G. ranked rank G g' \<Longrightarrow> ''B1'' \<in> G \<Longrightarrow>
            \<not> validExpr (substFrom refHost g' (matchRefs (trim ''=A1+1'')) (tl (trim ''=A1+1''))) \<Longrightarrow>
            getCell g' ''B1'' = Str ''#ERR''"
    by blast
  have tg: "t = g'" using g' by (simp add: t_def)
  have rf: "refsOf t ''A1'' = []" "refsOf t ''B1'' = [''A1'']"
    unfolding t_def r_def by code_simp+
  have rk: "ranked (\<lambda>k. if k = ''B1'' then 1 else 0) {''A1'', ''B1''} t"
    by (simp add: ranked_def rf)
  have bad: "\<not> validExpr (substFrom refHost t (matchRefs (trim ''=A1+1'')) (tl (trim ''=A1+1'')))"
    unfolding t_def r_def by code_simp
  have "getCell t ''B1'' = Str ''#ERR''"
    using all [OF rk [unfolded tg] _ bad [unfolded tg]] unfolding tg by simp
  with 1 show ?thesis unfolding t_def r_def by blast
qed

text \<open>
  C7 (unknown identifiers). \<^verbatim>\<open>setCell('toString', '1')\<close> names no cell of the grid, and
  the call does not return: it throws a \<^verbatim>\<open>TypeError\<close>.
\<close>

theorem C7_inherited_name_throws:
  "setCell refHost (newSpreadsheet 5 5) ''toString'' ''1'' = Inl TypeError"
  by code_simp

text \<open>
  C8 (the reference pattern follows the grid's size). It does not: on a grid of six
  columns the cell F1 exists and \<^verbatim>\<open>=F1\<close> has no reference in it, so the formula is
  rejected; on a grid of one cell, \<^verbatim>\<open>=E5\<close> is read as a reference to a cell that does
  not exist and is recorded as a dependency.
\<close>

theorem C8_counterexample:
  "''F1'' \<in> set (keys (newSpreadsheet 6 1)) \<and> matchRefs ''=F1'' = [] \<and>
   map_sum id (\<lambda>s. (getCell s ''A1'', errorOf s ''A1''))
     (setCell refHost (newSpreadsheet 6 1) ''A1'' ''=F1'')
     = Inr (Str ''#ERR'', Some ''Invalid formula'') \<and>
   ''E5'' \<notin> set (keys (newSpreadsheet 1 1)) \<and> matchRefs ''=E5'' = [''E5''] \<and>
   map_sum id (\<lambda>s. map_option dependencies (own s ''A1''))
     (setCell refHost (newSpreadsheet 1 1) ''A1'' ''=E5'') = Inr (Some [''E5''])"
  by code_simp

text \<open>
  C8, amended. Whatever the grid, the references found in a text are exactly the
  occurrences of a letter from A to E followed by a digit from 1 to 5; these are the
  identifiers of the grid exactly when it has five columns and five rows.
\<close>

theorem C8_references_are_fixed:
  "set (matchRefs t) = {x \<in> allRefs. \<exists>pre post. t = pre @ x @ post} \<and>
   (set (keys (newSpreadsheet c r)) = allRefs \<longleftrightarrow> c = 5 \<and> r = 5)"
proof -
  have "set (keys (newSpreadsheet 5 5)) = allRefs"
    by (simp only: keys_5_5 allRefs_enum)
  then show ?thesis using keys_size_5_5 [of c r] set_matchRefs [of t] by blast
qed

text \<open>
  C9 (idempotence). On a grid the program can reach, a second call of \<^verbatim>\<open>setCell\<close> with
  the same identifier and the same text leaves every cell with the value and the error
  the first call left. (\<open>after\<close> is the grid after a call, whether the call returned or,
  for a name inherited from \<^verbatim>\<open>Object.prototype\<close>, threw.)
\<close>

theorem C9_idempotent:
  "reachable h s \<Longrightarrow>
     getCell (after h (after h s i v) i v) k = getCell (after h s i v) k \<and>
     errorOf (after h (after h s i v) i v) k = errorOf (after h s i v) k"
  by (simp add: after_twice computed_getCell computed_errorOf)

theorem C9_idempotent_witness:
  "getCell (after refHost (projr (setCells refHost (newSpreadsheet 5 5) [(''A1'', ''=B1+1'')]))
      ''B1'' ''=A1+1'') ''A1'' = Num (Fin 1) \<and>
   getCell (after refHost (after refHost
      (projr (setCells refHost (newSpreadsheet 5 5) [(''A1'', ''=B1+1'')]))
      ''B1'' ''=A1+1'') ''B1'' ''=A1+1'') ''A1'' = Num (Fin 1)"
proof -
  let ?r = "setCells refHost (newSpreadsheet 5 5) [(''A1'', ''=B1+1'')]"
  have "\<not> isl ?r" by code_simp
  then have "?r = Inr (projr ?r)" by simp
  from reachable_setCells [OF reachable.constructed this]
  have r: "reachable refHost (projr ?r)" .
  have 1: "getCell (after refHost (projr ?r) ''B1'' ''=A1+1'') ''A1'' = Num (Fin 1)"
    by code_simp
  with C9_idempotent [OF r, of "''B1''" "''=A1+1''" "''A1''"] show ?thesis by simp
qed

text \<open>
  C10 (non-finite dependencies). As stated, the claim fails on a reference cycle: after
  A1 is set to \<^verbatim>\<open>=B1+1\<close> and B1 to \<^verbatim>\<open>=1/(A1-1)\<close>, the cell B1 holds \<^verbatim>\<open>Infinity\<close> and A1
  refers to it, but evaluating A1 evaluates B1 again first, reads -1 for it, and
  leaves A1 with the value 0 and no error.
\<close>

theorem C10_counterexample:
  "map_sum id
     (\<lambda>s. (getCell s ''B1'', map_option raw (own s ''A1''),
            getCell (evaluateCell refHost s ''A1'' {}) ''A1'',
            errorOf (evaluateCell refHost s ''A1'' {}) ''A1''))
     (setCells refHost (newSpreadsheet 5 5) [(''A1'', ''=B1+1''), (''B1'', ''=1/(A1-1)'')])
   = Inr (Num PosInf, Some ''=B1+1'', Num (Fin 0), None)"
  by code_simp

text \<open>
  C10, amended. On a grid the program can reach, take a formula cell in a part of the
  grid with no reference cycle in it that refers to a cell whose computed value is
  \<^verbatim>\<open>Infinity\<close>, \<^verbatim>\<open>-Infinity\<close> or \<^verbatim>\<open>NaN\<close>. Evaluating the formula cell yields the
  generic-error sentinel with the message \<^verbatim>\<open>Invalid formula\<close>, because the expression
  checked at line 94 has a letter of the substituted text in it; and the cell holds
  that sentinel and that message already.
\<close>

theorem C10_nonfinite_dependency_without_cycles:
  assumes "reachable h s" and "ranked rank G s" and "i \<in> G"
    and "own s i = Some cell" and "startsWithEq (trim (raw cell))"
    and "r \<in> set (matchRefs (trim (raw cell)))"
    and "getCell s r \<in> {Num PosInf, Num NegInf, Num NaN}"
  shows "\<not> validExpr (substituted h s i {}) \<and>
         getCell (evaluateCell h s i {}) i = Str ''#ERR'' \<and>
         errorOf (evaluateCell h s i {}) i = Some ''Invalid formula'' \<and>
         getCell s i = Str ''#ERR'' \<and> errorOf s i = Some ''Invalid formula''"
proof -
  have "getCell s r \<noteq> Undefined" using assms(7) by auto
  then have "refValue s r \<in> {Num PosInf, Num NegInf, Num NaN}"
    using assms(7) by (simp add: getCell_refValue)
  with assms(5,6)
  have bad: "\<not> validExpr (substFrom h s (matchRefs (trim (raw cell))) (tl (trim (raw cell))))"
    by (rule nonfinite_substFrom)
  then have 1: "\<not> validExpr (substituted h s i {})"
    using substituted_substFrom [OF assms(1-5)] by simp
  have 2: "getCell (evaluateCell h s i {}) i = Str ''#ERR'' \<and>
           errorOf (evaluateCell h s i {}) i = Some ''Invalid formula''"
    using assms(4) _ assms(5) 1 by (rule invalid_formula_evaluateCell) simp
  have "consistent h s i" using assms(1-3) by (rule reachable_consistent)
  then have "getCell s i = Str ''#ERR'' \<and> errorOf s i = Some ''Invalid formula''"
    using assms(4,5) bad by (rule consistent_invalid)
  with 1 2 show ?thesis by blast
qed

theorem C10_nonfinite_dependency_without_cycles_witness:
  "getCell (projr (setCells refHost (newSpreadsheet 5 5)
      [(''A1'', ''=1/0''), (''B1'', ''=A1+1'')])) ''A1'' = Num PosInf \<and>
   getCell (evaluateCell refHost (projr (setCells refHost (newSpreadsheet 5 5)
      [(''A1'', ''=1/0''), (''B1'', ''=A1+1'')])) ''B1'' {}) ''B1'' = Str ''#ERR'' \<and>
   errorOf (evaluateCell refHost (projr (setCells refHost (newSpreadsheet 5 5)
      [(''A1'', ''=1/0''), (''B1'', ''=A1+1'')])) ''B1'' {}) ''B1'' = Some ''Invalid formula'' \<and>
   map_sum id (\<lambda>s. (getCell s ''A1'', getCell s ''B1'', errorOf s ''B1''))
     (setCells refHost (newSpreadsheet 5 5) [(''A1'', ''=0/0''), (''B1'', ''=A1*2'')])
     = Inr (Num NaN, Str ''#ERR'', Some ''Invalid formula'')"
proof -
  define s where "s = projr (setCells refHost (newSpreadsheet 5 5)
      [(''A1'', ''=1/0''), (''B1'', ''=A1+1'')])"
  have "\<not> isl (setCells refHost (newSpreadsheet 5 5) [(''A1'', ''=1/0''), (''B1'', ''=A1+1'')])"
    by code_simp
  then have "setCells refHost (newSpreadsheet 5 5) [(''A1'', ''=1/0''), (''B1'', ''=A1+1'')] = Inr s"
    unfolding s_def by (rule sum.collapse(2) [symmetric])
  from reachable_setCells [OF reachable.constructed this]
  have re: "reachable refHost s" .
  have rf: "refsOf s ''A1'' = []" "refsOf s ''B1'' = [''A1'']" unfolding s_def by code_simp+
  have rk: "ranked (\<lambda>k. if k = ''B1'' then 1 else 0) {''A1'', ''B1''} s"
    by (simp add: ranked_def rf)
  have o: "own s ''B1'' \<noteq> None" unfolding s_def by code_simp
  then have 1: "own s ''B1'' = Some (the (own s ''B1''))" by simp
  have 2: "startsWithEq (trim (raw (the (own s ''B1''))))" unfolding s_def by code_simp
  have 3: "''A1'' \<in> set (matchRefs (trim (raw (the (own s ''B1'')))))"
    unfolding s_def by code_simp
  have 4: "getCell s ''A1'' = Num PosInf" unfolding s_def by code_simp
  have 5: "getCell (evaluateCell refHost s ''B1'' {}) ''B1'' = Str ''#ERR'' \<and>
        errorOf (evaluateCell refHost s ''B1'' {}) ''B1'' = Some ''Invalid formula''"
    using C10_nonfinite_dependency_without_cycles [OF re rk _ 1 2 3] 4 by simp
  have 6: "map_sum id (\<lambda>s. (getCell s ''A1'', getCell s ''B1'', errorOf s ''B1''))
     (setCells refHost (newSpreadsheet 5 5) [(''A1'', ''=0/0''), (''B1'', ''=A1*2'')])
     = Inr (Num NaN, Str ''#ERR'', Some ''Invalid formula'')" by code_simp
  from 4 5 6 show ?thesis unfolding s_def by blast
qed

end
